theory Spec2Isabelle
  imports Main "HOL-Library.Sublist"
begin

section \<open>Byte strings and the Python built-ins used by twisted/protocols/basic.py\<close>

text \<open>
  A Python 2 \<open>str\<close> is a sequence of bytes; it is modelled as a list of 8-bit characters.
\<close>

type_synonym bytes = string

text \<open>
  The exceptions the module can raise: its own \<open>NetstringParseError\<close> (constructed with
  the unconsumed rest of the current chunk as its argument), \<open>IndexError\<close> from indexing
  an empty string, and \<open>struct.error\<close> from \<open>struct.pack\<close>.
\<close>

datatype py_error = NetstringParseError bytes | IndexError | StructError

definition isdigit :: "char \<Rightarrow> bool" where
  \<comment> \<open>the regular expression class \<open>\d\<close> on a byte string: the ASCII digits 0 to 9\<close>
  "isdigit c = (48 \<le> (of_char c :: nat) \<and> (of_char c :: nat) \<le> 57)"

definition digit_val :: "char \<Rightarrow> nat" where
  "digit_val c = (of_char c :: nat) - 48"

definition py_int :: "bytes \<Rightarrow> nat" where
  \<comment> \<open>\<open>int(s)\<close> on a non-empty string of decimal digits\<close>
  "py_int s = foldl (\<lambda>a c. 10 * a + digit_val c) 0 s"

definition digit_char :: "nat \<Rightarrow> char" where
  "digit_char d = char_of (48 + d)"

fun decimal :: "nat \<Rightarrow> bytes" where
  \<comment> \<open>\<open>'%d' % n\<close> for a non-negative \<open>n\<close>\<close>
  "decimal n = (if n < 10 then [digit_char n] else decimal (n div 10) @ [digit_char (n mod 10)])"

declare decimal.simps [simp del]

section \<open>NetstringReceiver\<close>

text \<open>\<open>LENGTH, DATA, COMMA = range(3)\<close>: the three values \<open>mode\<close> takes.\<close>

datatype Mode = LENGTH | DATA | COMMA

text \<open>
  The instance attributes of a NetstringReceiver: \<open>mode\<close>, \<open>length\<close>, the private
  \<open>__buffer\<close> (payload collected so far) and \<open>__data\<close> (unconsumed rest of the current
  chunk). \<open>ns_user\<close> is the state of the application that overrides \<open>stringReceived\<close>;
  the callback is a parameter \<open>cb\<close> of the operations and acts on this component only.
  \<open>length\<close> is a Python int that the class only increases by appended digits and
  decreases by \<open>len(self.__data[:self.length])\<close>, which never exceeds it: a natural number.
  The methods \<open>dataReceived\<close>, \<open>sendString\<close> and \<open>stringReceived\<close> exist in several
  classes of the module; their models carry the prefixes \<open>ns_\<close>, \<open>lr_\<close> and \<open>i32_\<close> of
  NetstringReceiver, LineReceiver and Int32StringReceiver. In the base classes the callbacks
  raise \<open>NotImplementedError\<close>; the model is of a subclass that overrides them with a
  function that returns.
\<close>

record 'u NetstringReceiver =
  ns_mode :: Mode
  ns_length :: nat
  ns_buffer :: bytes
  ns_data :: bytes
  ns_user :: 'u

definition ns_fresh :: "'u \<Rightarrow> 'u NetstringReceiver" where
  \<comment> \<open>class attributes \<open>mode = LENGTH\<close>, \<open>length = 0\<close>. The private attributes are not yet
      set: \<open>dataReceived\<close> sets \<open>__data\<close> first, and \<open>doLength\<close> sets \<open>__buffer\<close> before the
      mode becomes \<open>DATA\<close>, so neither is read before it is set.\<close>
  "ns_fresh u = \<lparr>ns_mode = LENGTH, ns_length = 0, ns_buffer = [], ns_data = [], ns_user = u\<rparr>"

type_synonym 'u ns_result = "(py_error \<times> 'u NetstringReceiver) + 'u NetstringReceiver"

text \<open>
  A raised exception leaves the object as it was mutated so far: the left summand carries
  the exception together with the receiver at the moment of the raise.
\<close>

definition doData :: "(bytes \<Rightarrow> 'u \<Rightarrow> 'u) \<Rightarrow> 'u NetstringReceiver \<Rightarrow> 'u NetstringReceiver" where
  "doData cb st =
     (let buffer = take (ns_length st) (ns_data st);
          st1 = st\<lparr>ns_data := drop (ns_length st) (ns_data st)\<rparr>;
          st2 = st1\<lparr>ns_length := ns_length st1 - length buffer\<rparr>;
          st3 = st2\<lparr>ns_buffer := ns_buffer st2 @ buffer\<rparr>
      in if ns_length st3 \<noteq> 0 then st3
         else st3\<lparr>ns_user := cb (ns_buffer st3) (ns_user st3), ns_mode := COMMA\<rparr>)"

definition doComma :: "'u NetstringReceiver \<Rightarrow> 'u ns_result" where
  "doComma st =
     (let st1 = st\<lparr>ns_mode := LENGTH\<rparr>
      in case ns_data st1 of
           [] \<Rightarrow> Inl (IndexError, st1)
         | c # rest \<Rightarrow>
             if c \<noteq> CHR '','' then Inl (NetstringParseError (ns_data st1), st1)
             else Inr (st1\<lparr>ns_data := rest\<rparr>))"

definition NUMBER_match :: "bytes \<Rightarrow> bytes \<times> bytes" where
  \<comment> \<open>\<open>re.compile('(\d*)(:?)').match(s)\<close>: groups 1 and 2; the match always succeeds\<close>
  "NUMBER_match s =
     (let g1 = takeWhile isdigit s
      in (g1, case dropWhile isdigit s of [] \<Rightarrow> [] | c # _ \<Rightarrow> if c = CHR '':'' then [c] else []))"

definition doLength :: "'u NetstringReceiver \<Rightarrow> 'u ns_result" where
  "doLength st =
     (let (g1, g2) = NUMBER_match (ns_data st);
          m_end = length g1 + length g2
      in if m_end = 0 then Inl (NetstringParseError (ns_data st), st)
         else
           let st1 = st\<lparr>ns_data := drop m_end (ns_data st)\<rparr>;
               st2 = (if g1 \<noteq> []
                      then st1\<lparr>ns_length := ns_length st1 * 10 ^ length g1 + py_int g1\<rparr>
                      else st1)
           in Inr (if g2 \<noteq> [] then st2\<lparr>ns_buffer := [], ns_mode := DATA\<rparr> else st2))"

lemma doData_measure:
  "ns_data st \<noteq> [] \<Longrightarrow>
   length (ns_data (doData cb st)) < length (ns_data st) \<or>
   (ns_data (doData cb st) = ns_data st \<and> ns_mode (doData cb st) = COMMA)"
  by (cases "ns_length st = 0") (auto simp: doData_def Let_def)

lemma doComma_measure:
  "doComma st = Inr st' \<Longrightarrow> length (ns_data st') < length (ns_data st)"
  by (auto simp: doComma_def Let_def split: list.splits if_splits)

lemma doLength_measure:
  assumes "doLength st = Inr st'"
  shows "length (ns_data st') < length (ns_data st)"
proof (cases "ns_data st")
  case Nil
  with assms show ?thesis by (simp add: doLength_def NUMBER_match_def)
next
  case (Cons c cs)
  with assms show ?thesis
    by (auto simp: doLength_def Let_def split: prod.splits if_splits)
qed

text \<open>
  The \<open>while self.__data:\<close> loop of \<open>dataReceived\<close>. The branch \<open>assert 0\<close> is not
  reachable for a \<open>mode\<close> of type \<open>Mode\<close>.
\<close>

function ns_loop :: "(bytes \<Rightarrow> 'u \<Rightarrow> 'u) \<Rightarrow> 'u NetstringReceiver \<Rightarrow> 'u ns_result" where
  "ns_loop cb st =
     (if ns_data st = [] then Inr st
      else case ns_mode st of
             DATA \<Rightarrow> ns_loop cb (doData cb st)
           | COMMA \<Rightarrow> (case doComma st of Inl e \<Rightarrow> Inl e | Inr st' \<Rightarrow> ns_loop cb st')
           | LENGTH \<Rightarrow> (case doLength st of Inl e \<Rightarrow> Inl e | Inr st' \<Rightarrow> ns_loop cb st'))"
  by pat_completeness auto
termination
proof (relation "measures [\<lambda>(cb, st). length (ns_data st),
                           \<lambda>(cb, st). if ns_mode st = DATA then 1 else 0]")
  show "wf (measures [\<lambda>(cb, st). length (ns_data st),
                      \<lambda>(cb :: bytes \<Rightarrow> 'u \<Rightarrow> 'u, st). if ns_mode st = DATA then 1 else (0::nat)])"
    by simp
next
  fix cb :: "bytes \<Rightarrow> 'u \<Rightarrow> 'u" and st :: "'u NetstringReceiver"
  assume "ns_data st \<noteq> []" "ns_mode st = DATA"
  then show "((cb, doData cb st), (cb, st))
        \<in> measures [\<lambda>(cb, st). length (ns_data st), \<lambda>(cb, st). if ns_mode st = DATA then 1 else 0]"
    using doData_measure [of st cb] by auto
next
  fix cb :: "bytes \<Rightarrow> 'u \<Rightarrow> 'u" and st st' :: "'u NetstringReceiver"
  assume "doComma st = Inr st'"
  then show "((cb, st'), (cb, st))
        \<in> measures [\<lambda>(cb, st). length (ns_data st), \<lambda>(cb, st). if ns_mode st = DATA then 1 else 0]"
    using doComma_measure [of st st'] by auto
next
  fix cb :: "bytes \<Rightarrow> 'u \<Rightarrow> 'u" and st st' :: "'u NetstringReceiver"
  assume "doLength st = Inr st'"
  then show "((cb, st'), (cb, st))
        \<in> measures [\<lambda>(cb, st). length (ns_data st), \<lambda>(cb, st). if ns_mode st = DATA then 1 else 0]"
    using doLength_measure [of st st'] by auto
qed

declare ns_loop.simps [simp del]

definition ns_dataReceived ::
  "(bytes \<Rightarrow> 'u \<Rightarrow> 'u) \<Rightarrow> 'u NetstringReceiver \<Rightarrow> bytes \<Rightarrow> 'u ns_result" where
  "ns_dataReceived cb st data = ns_loop cb (st\<lparr>ns_data := data\<rparr>)"

definition ns_sendString :: "bytes \<Rightarrow> bytes" where
  \<comment> \<open>the bytes handed to \<open>transport.write\<close>: \<open>'%d:%s,' % (len(data), data)\<close>\<close>
  "ns_sendString data = decimal (length data) @ '':'' @ data @ '',''"

text \<open>The callback that records every delivered frame, in order.\<close>

definition record_frame :: "bytes \<Rightarrow> bytes list \<Rightarrow> bytes list" where
  "record_frame s frames = frames @ [s]"

definition ns_feed ::
  "(bytes \<Rightarrow> 'u \<Rightarrow> 'u) \<Rightarrow> 'u NetstringReceiver \<Rightarrow> bytes list \<Rightarrow> 'u ns_result" where
  \<comment> \<open>one \<open>dataReceived\<close> call per chunk, in order; the first exception ends the feeding\<close>
  "ns_feed cb st chunks =
     foldl (\<lambda>r c. case r of Inl e \<Rightarrow> Inl e | Inr s \<Rightarrow> ns_dataReceived cb s c) (Inr st) chunks"

text \<open>
  Two results of the loop are compared up to what the chunking itself fixes. \<open>ns_more b\<close>
  is what one more piece \<open>b\<close> of input in the same chunk changes in the result of a single
  step: the unconsumed rest, and with it the argument of the exception. \<open>ns_then cb b\<close>
  continues a result with \<open>b\<close> as the next chunk. \<open>ns_outcome\<close> forgets the unconsumed
  rest of the chunk at a raise, in the receiver and in the argument of the exception, and
  keeps everything else: whether the call raised, the exception class, the frames
  delivered, the mode, the length and the payload collected.
\<close>

fun ext_error :: "py_error \<Rightarrow> bytes \<Rightarrow> py_error" where
  "ext_error (NetstringParseError d) b = NetstringParseError (d @ b)"
| "ext_error e b = e"

definition ns_more :: "bytes \<Rightarrow> 'u ns_result \<Rightarrow> 'u ns_result" where
  "ns_more b r = (case r of Inl (e, s) \<Rightarrow> Inl (ext_error e b, s\<lparr>ns_data := ns_data s @ b\<rparr>)
                   | Inr s \<Rightarrow> Inr (s\<lparr>ns_data := ns_data s @ b\<rparr>))"

definition ns_then :: "(bytes \<Rightarrow> 'u \<Rightarrow> 'u) \<Rightarrow> bytes \<Rightarrow> 'u ns_result \<Rightarrow> 'u ns_result" where
  "ns_then cb b r = (case r of Inl (e, s) \<Rightarrow> Inl (ext_error e b, s\<lparr>ns_data := ns_data s @ b\<rparr>)
                     | Inr s \<Rightarrow> ns_loop cb (s\<lparr>ns_data := b\<rparr>))"

fun forget_rest :: "py_error \<Rightarrow> py_error" where
  "forget_rest (NetstringParseError d) = NetstringParseError []"
| "forget_rest e = e"

definition ns_outcome :: "'u ns_result \<Rightarrow> 'u ns_result" where
  "ns_outcome r = (case r of Inl (e, s) \<Rightarrow> Inl (forget_rest e, s\<lparr>ns_data := []\<rparr>) | Inr s \<Rightarrow> Inr s)"

section \<open>LineReceiver\<close>

text \<open>
  \<open>string.split(s, sep, 1)\<close> unpacked into two names, as \<open>dataReceived\<close> does. \<open>None\<close>
  stands for the \<open>ValueError\<close> that the \<open>try\<close> catches: \<open>split\<close> raises it for an empty
  separator, and the unpacking raises it when the separator does not occur in \<open>s\<close> (the
  list then has one element). Otherwise the split is at the leftmost occurrence.
\<close>

fun py_split1 :: "bytes \<Rightarrow> bytes \<Rightarrow> (bytes \<times> bytes) option" where
  "py_split1 [] sep = None"
| "py_split1 (c # s) sep =
     (if sep = [] then None
      else if prefix sep (c # s) then Some ([], drop (length sep) (c # s))
      else map_option (\<lambda>(line, rest). (c # line, rest)) (py_split1 s sep))"

text \<open>
  The instance attributes \<open>line_mode\<close> (1 or 0, used as a truth value), \<open>buffer\<close> and
  \<open>delimiter\<close>, and the state \<open>lr_user\<close> of the application that overrides \<open>lineReceived\<close>
  and \<open>rawDataReceived\<close>. Both callbacks are parameters acting on \<open>lr_user\<close>. A line
  callback may call \<open>self.setRawMode()\<close>; it returns, next to the new application state,
  whether it did so. Callbacks that re-enter \<open>dataReceived\<close> or \<open>setLineMode\<close>, or that
  raise, are outside this model, and so is the value that \<open>dataReceived\<close> returns (that
  of \<open>rawDataReceived\<close>, or \<open>None\<close>).
\<close>

record 'u LineReceiver =
  lr_line_mode :: bool
  lr_buffer :: bytes
  lr_delimiter :: bytes
  lr_user :: 'u

definition CRLF :: bytes where
  "CRLF = [CHR 0x0D, CHR 0x0A]"

definition lr_fresh :: "'u \<Rightarrow> 'u LineReceiver" where
  \<comment> \<open>class attributes \<open>line_mode = 1\<close>, \<open>buffer = ''\<close>, \<open>delimiter = '\r\n'\<close>\<close>
  "lr_fresh u = \<lparr>lr_line_mode = True, lr_buffer = [], lr_delimiter = CRLF, lr_user = u\<rparr>"

definition setRawMode :: "'u LineReceiver \<Rightarrow> 'u LineReceiver" where
  "setRawMode st = st\<lparr>lr_line_mode := False\<rparr>"

lemma py_split1_shorter: "py_split1 s sep = Some (line, rest) \<Longrightarrow> length rest < length s"
proof (induction s arbitrary: line)
  case Nil
  then show ?case by simp
next
  case (Cons c s)
  then show ?case by (fastforce split: if_splits)
qed

text \<open>
  The \<open>while self.line_mode: ... else: ...\<close> statement of \<open>dataReceived\<close>: \<open>break\<close> leaves
  the statement without running the \<open>else\<close> clause; the clause runs when the condition is
  found false, at entry or after a line callback has switched the mode.
\<close>

function lr_loop ::
  "(bytes \<Rightarrow> 'u \<Rightarrow> 'u \<times> bool) \<Rightarrow> (bytes \<Rightarrow> 'u \<Rightarrow> 'u) \<Rightarrow> 'u LineReceiver \<Rightarrow> 'u LineReceiver" where
  "lr_loop lineReceived rawDataReceived st =
     (if lr_line_mode st then
        (case py_split1 (lr_buffer st) (lr_delimiter st) of
           None \<Rightarrow> st
         | Some (line, rest) \<Rightarrow>
             (case lineReceived line (lr_user st) of
                (u, raw) \<Rightarrow>
                  lr_loop lineReceived rawDataReceived
                    (if raw then setRawMode (st\<lparr>lr_buffer := rest, lr_user := u\<rparr>)
                     else st\<lparr>lr_buffer := rest, lr_user := u\<rparr>)))
      else
        (let data = lr_buffer st; st1 = st\<lparr>lr_buffer := []\<rparr>
         in if data \<noteq> [] then st1\<lparr>lr_user := rawDataReceived data (lr_user st1)\<rparr> else st1))"
  by pat_completeness auto
termination
  by (relation "measure (\<lambda>(lh, rh, st). length (lr_buffer st))")
     (auto simp: setRawMode_def dest: py_split1_shorter)

declare lr_loop.simps [simp del]

definition lr_dataReceived ::
  "(bytes \<Rightarrow> 'u \<Rightarrow> 'u \<times> bool) \<Rightarrow> (bytes \<Rightarrow> 'u \<Rightarrow> 'u) \<Rightarrow> 'u LineReceiver \<Rightarrow> bytes \<Rightarrow> 'u LineReceiver" where
  "lr_dataReceived lineReceived rawDataReceived st data =
     lr_loop lineReceived rawDataReceived (st\<lparr>lr_buffer := lr_buffer st @ data\<rparr>)"

definition setLineMode ::
  "(bytes \<Rightarrow> 'u \<Rightarrow> 'u \<times> bool) \<Rightarrow> (bytes \<Rightarrow> 'u \<Rightarrow> 'u) \<Rightarrow> 'u LineReceiver \<Rightarrow> bytes \<Rightarrow> 'u LineReceiver" where
  "setLineMode lineReceived rawDataReceived st extra =
     lr_dataReceived lineReceived rawDataReceived (st\<lparr>lr_line_mode := True\<rparr>) extra"

definition sendLine :: "'u LineReceiver \<Rightarrow> bytes \<Rightarrow> bytes" where
  \<comment> \<open>the bytes handed to \<open>transport.write\<close>\<close>
  "sendLine st line = line @ lr_delimiter st"

definition lr_feed ::
  "(bytes \<Rightarrow> 'u \<Rightarrow> 'u \<times> bool) \<Rightarrow> (bytes \<Rightarrow> 'u \<Rightarrow> 'u) \<Rightarrow> 'u LineReceiver \<Rightarrow> bytes list \<Rightarrow> 'u LineReceiver" where
  "lr_feed lineReceived rawDataReceived st chunks =
     foldl (lr_dataReceived lineReceived rawDataReceived) st chunks"

text \<open>
  Callbacks that record every call in order. The decision of the line callback to switch
  to raw mode may depend on all calls made so far and on the line.
\<close>

datatype event = Line bytes | Raw bytes

definition record_line :: "(event list \<Rightarrow> bytes \<Rightarrow> bool) \<Rightarrow> bytes \<Rightarrow> event list \<Rightarrow> event list \<times> bool" where
  "record_line switch line evs = (evs @ [Line line], switch evs line)"

definition record_raw :: "bytes \<Rightarrow> event list \<Rightarrow> event list" where
  "record_raw data evs = evs @ [Raw data]"

fun lines_of :: "event list \<Rightarrow> bytes list" where
  "lines_of [] = []"
| "lines_of (Line l # evs) = l # lines_of evs"
| "lines_of (Raw d # evs) = lines_of evs"

text \<open>
  A delimiter that cannot overlap itself: no proper non-empty prefix of it is also a suffix
  of it. The delimiter of the class, \<open>"\r\n"\<close>, is one.
\<close>

definition overlap_free :: "bytes \<Rightarrow> bool" where
  "overlap_free d = list_all (\<lambda>k. take k d \<noteq> drop (length d - k) d) [1..<length d]"

section \<open>Int32StringReceiver\<close>

definition be_nat :: "bytes \<Rightarrow> nat" where
  \<comment> \<open>the bytes read as one big-endian unsigned number\<close>
  "be_nat s = foldl (\<lambda>a c. 256 * a + of_char c) 0 s"

definition struct_unpack_i :: "bytes \<Rightarrow> int" where
  \<comment> \<open>\<open>struct.unpack("!i", s)\<close> for a 4-byte \<open>s\<close>: big-endian, signed (two's complement).
      Its one call site passes \<open>recvd[:4]\<close> with \<open>len(recvd) > 3\<close>, always 4 bytes.\<close>
  "struct_unpack_i s = (if be_nat s < 2 ^ 31 then int (be_nat s) else int (be_nat s) - 2 ^ 32)"

definition struct_pack_i :: "int \<Rightarrow> py_error + bytes" where
  \<comment> \<open>\<open>struct.pack("!i", n)\<close>: \<open>struct.error\<close> for a number outside the signed 32-bit range\<close>
  "struct_pack_i n =
     (if - (2 ^ 31) \<le> n \<and> n < 2 ^ 31
      then let u = nat (n mod 2 ^ 32)
           in Inr [char_of (u div 2 ^ 24), char_of (u div 2 ^ 16), char_of (u div 2 ^ 8), char_of u]
      else Inl StructError)"

definition py_index :: "int \<Rightarrow> nat \<Rightarrow> nat" where
  \<comment> \<open>the position a slice bound denotes in a sequence of length \<open>n\<close>: a negative bound
      counts from the end, and both kinds are clipped to the sequence\<close>
  "py_index i n = (if i < 0 then nat (max 0 (int n + i)) else min (nat i) n)"

definition slice_from :: "'a list \<Rightarrow> int \<Rightarrow> 'a list" where
  \<comment> \<open>\<open>s[i:]\<close>\<close>
  "slice_from s i = drop (py_index i (length s)) s"

definition slice :: "'a list \<Rightarrow> int \<Rightarrow> int \<Rightarrow> 'a list" where
  \<comment> \<open>\<open>s[i:j]\<close>\<close>
  "slice s i j =
     take (py_index j (length s) - py_index i (length s)) (drop (py_index i (length s)) s)"

record 'u Int32StringReceiver =
  i32_recvd :: bytes
  i32_user :: 'u

definition i32_fresh :: "'u \<Rightarrow> 'u Int32StringReceiver" where
  "i32_fresh u = \<lparr>i32_recvd = [], i32_user = u\<rparr>"

text \<open>
  The \<open>while len(self.recvd) > 3:\<close> loop. Nothing in it ensures progress for a header read
  as a negative number, so the loop is a partial function: \<open>None\<close> is a call that never
  returns.
\<close>

partial_function (option) i32_loop ::
  "(bytes \<Rightarrow> 'u \<Rightarrow> 'u) \<Rightarrow> 'u Int32StringReceiver \<Rightarrow> 'u Int32StringReceiver option" where
  "i32_loop cb st =
     (if length (i32_recvd st) > 3 then
        (let len = struct_unpack_i (take 4 (i32_recvd st))
         in if int (length (i32_recvd st)) < len + 4 then Some st
            else i32_loop cb
                   (st\<lparr>i32_recvd := slice_from (i32_recvd st) (len + 4),
                       i32_user := cb (slice (i32_recvd st) 4 (len + 4)) (i32_user st)\<rparr>))
      else Some st)"

definition i32_dataReceived ::
  "(bytes \<Rightarrow> 'u \<Rightarrow> 'u) \<Rightarrow> 'u Int32StringReceiver \<Rightarrow> bytes \<Rightarrow> 'u Int32StringReceiver option" where
  "i32_dataReceived cb st recd = i32_loop cb (st\<lparr>i32_recvd := i32_recvd st @ recd\<rparr>)"

definition i32_sendString :: "bytes \<Rightarrow> py_error + bytes" where
  \<comment> \<open>the bytes handed to \<open>transport.write\<close>: \<open>struct.pack("!i", len(data)) + data\<close>\<close>
  "i32_sendString data =
     (case struct_pack_i (int (length data)) of Inl e \<Rightarrow> Inl e | Inr header \<Rightarrow> Inr (header @ data))"

definition i32_feed ::
  "(bytes \<Rightarrow> 'u \<Rightarrow> 'u) \<Rightarrow> 'u Int32StringReceiver \<Rightarrow> bytes list \<Rightarrow> 'u Int32StringReceiver option" where
  "i32_feed cb st chunks =
     foldl (\<lambda>r c. case r of None \<Rightarrow> None | Some s \<Rightarrow> i32_dataReceived cb s c) (Some st) chunks"

text \<open>
  The streams on which the one-chunk decoding reads no header with its top bit set: every
  4-byte header that the loop reads at the start of the buffer is non-negative as a signed
  number, up to the first header whose payload is not complete.
\<close>

function headers_nonnegative :: "bytes \<Rightarrow> bool" where
  "headers_nonnegative s =
     (if length s > 3 then
        (if struct_unpack_i (take 4 s) < 0 then False
         else if int (length s) < struct_unpack_i (take 4 s) + 4 then True
         else headers_nonnegative (drop (nat (struct_unpack_i (take 4 s) + 4)) s))
      else True)"
  by pat_completeness auto
termination
  by (relation "measure length") auto

declare headers_nonnegative.simps [simp del]

section \<open>StatefulStringProtocol\<close>

text \<open>
  The mixin's attribute \<open>state\<close>, what it has printed, whether it has called
  \<open>transport.loseConnection()\<close>, and the application state the phase functions act on.
  The \<open>proto_*\<close> attributes of the object are a finite map from attribute names to phase
  functions; a phase function returns the next state, a string.
\<close>

record 'u StatefulStringProtocol =
  ssp_state :: string
  ssp_printed :: "string list"
  ssp_lost :: bool
  ssp_user :: 'u

definition ssp_fresh :: "'u \<Rightarrow> 'u StatefulStringProtocol" where
  "ssp_fresh u = \<lparr>ssp_state = ''init'', ssp_printed = [], ssp_lost = False, ssp_user = u\<rparr>"

definition stringReceived ::
  "(string \<rightharpoonup> (bytes \<Rightarrow> 'u \<Rightarrow> string \<times> 'u)) \<Rightarrow> bytes \<Rightarrow>
   'u StatefulStringProtocol \<Rightarrow> 'u StatefulStringProtocol" where
  "stringReceived attrs string st =
     (case attrs (''proto_'' @ ssp_state st) of
        None \<Rightarrow> st\<lparr>ssp_printed := ssp_printed st @ [''callback '' @ ssp_state st @ '' not found'']\<rparr>
      | Some statehandler \<Rightarrow>
          (case statehandler string (ssp_user st) of
             (next_state, u) \<Rightarrow>
               let st1 = st\<lparr>ssp_state := next_state, ssp_user := u\<rparr>
               in if ssp_state st1 = ''done'' then st1\<lparr>ssp_lost := True\<rparr> else st1))"

section \<open>NetstringReceiver: the drain loop and chunk boundaries\<close>

lemma py_int_foldl:
  "foldl (\<lambda>a c. 10 * a + digit_val c) acc s = acc * 10 ^ length s + py_int s"
proof (induction s rule: rev_induct)
  case Nil
  show ?case by (simp add: py_int_def)
next
  case (snoc c s)
  define F where "F = foldl (\<lambda>a c. 10 * a + digit_val c)"
  have "F acc (s @ [c]) = 10 * F acc s + digit_val c" by (simp add: F_def)
  also have "F acc s = acc * 10 ^ length s + F 0 s"
    using snoc.IH by (simp add: F_def py_int_def)
  finally have "F acc (s @ [c]) = acc * 10 ^ length (s @ [c]) + (10 * F 0 s + digit_val c)"
    by (simp add: algebra_simps)
  then show ?case by (simp add: F_def py_int_def)
qed

lemma py_int_append: "py_int (a @ g) = py_int a * 10 ^ length g + py_int g"
  using py_int_foldl [of "py_int a" g] by (simp add: py_int_def)

lemma NUMBER_match_stop:
  "dropWhile isdigit a \<noteq> [] \<Longrightarrow> NUMBER_match (a @ b) = NUMBER_match a"
  by (auto simp: NUMBER_match_def Let_def takeWhile_append dropWhile_append dropWhile_eq_Nil_conv
      split: list.splits)

lemma NUMBER_match_digits:
  "dropWhile isdigit a = [] \<Longrightarrow>
   NUMBER_match (a @ b) = (a @ fst (NUMBER_match b), snd (NUMBER_match b))"
  by (auto simp: NUMBER_match_def Let_def takeWhile_append dropWhile_append dropWhile_eq_Nil_conv
      split: list.splits)

lemma NUMBER_match_length: "length (fst (NUMBER_match s)) + length (snd (NUMBER_match s)) \<le> length s"
proof -
  have "length (takeWhile isdigit s) + length (dropWhile isdigit s) = length s"
    by (metis length_append takeWhile_dropWhile_id)
  then show ?thesis
    by (auto simp: NUMBER_match_def Let_def split: list.splits)
qed

lemma doLength_stop:
  assumes "dropWhile isdigit (ns_data st) \<noteq> []"
  shows "doLength (st\<lparr>ns_data := ns_data st @ b\<rparr>) = ns_more b (doLength st)"
proof -
  obtain g1 g2 where m: "NUMBER_match (ns_data st) = (g1, g2)" by (cases "NUMBER_match (ns_data st)")
  have le: "length g1 + length g2 \<le> length (ns_data st)"
    using NUMBER_match_length [of "ns_data st"] m by simp
  show ?thesis
    using le by (simp add: doLength_def ns_more_def NUMBER_match_stop [OF assms] m Let_def)
qed


lemma NUMBER_match_all_digits: "dropWhile isdigit a = [] \<Longrightarrow> NUMBER_match a = (a, [])"
  using NUMBER_match_digits [of a "[]"] by (simp add: NUMBER_match_def)

lemma doLength_digits:
  assumes "ns_data st \<noteq> []" "dropWhile isdigit (ns_data st) = []"
  shows "doLength st =
         Inr (st\<lparr>ns_length := ns_length st * 10 ^ length (ns_data st) + py_int (ns_data st), ns_data := []\<rparr>)"
  using assms(1) by (simp add: doLength_def NUMBER_match_all_digits [OF assms(2)])

lemma doLength_after_digits:
  assumes "ns_data st \<noteq> []" "dropWhile isdigit (ns_data st) = []" "b \<noteq> []"
  shows "doLength (st\<lparr>ns_data := ns_data st @ b\<rparr>) =
         (if fst (NUMBER_match b) = [] \<and> snd (NUMBER_match b) = []
          then Inr (st\<lparr>ns_length := ns_length st * 10 ^ length (ns_data st) + py_int (ns_data st), ns_data := b\<rparr>)
          else doLength (st\<lparr>ns_length := ns_length st * 10 ^ length (ns_data st) + py_int (ns_data st), ns_data := b\<rparr>))"
proof -
  obtain g1 g2 where m: "NUMBER_match b = (g1, g2)" by (cases "NUMBER_match b")
  have le: "length g1 + length g2 \<le> length b"
    using NUMBER_match_length [of b] m by simp
  have arith: "(ns_length st * 10 ^ length (ns_data st) + py_int (ns_data st)) * 10 ^ length g1 + py_int g1
      = ns_length st * 10 ^ (length (ns_data st) + length g1) + py_int (ns_data st @ g1)"
    by (simp add: py_int_append algebra_simps power_add)
  show ?thesis
  proof (cases "g1 = []")
    case True
    with assms(1) le show ?thesis
      by (simp add: doLength_def NUMBER_match_digits [OF assms(2)] m Let_def)
  next
    case False
    with assms(1) le arith show ?thesis
      by (simp add: doLength_def NUMBER_match_digits [OF assms(2)] m Let_def)
  qed
qed


lemma doData_enough:
  "ns_length st \<le> length (ns_data st) \<Longrightarrow>
   doData cb (st\<lparr>ns_data := ns_data st @ b\<rparr>) =
   (doData cb st)\<lparr>ns_data := ns_data (doData cb st) @ b\<rparr>"
  by (simp add: doData_def Let_def)

lemma doData_short:
  "length (ns_data st) < ns_length st \<Longrightarrow>
   doData cb st = st\<lparr>ns_length := ns_length st - length (ns_data st),
                          ns_buffer := ns_buffer st @ ns_data st, ns_data := []\<rparr>"
  by (simp add: doData_def Let_def)

lemma doData_short_append:
  "length (ns_data st) < ns_length st \<Longrightarrow>
   doData cb (st\<lparr>ns_data := ns_data st @ b\<rparr>) =
   doData cb ((doData cb st)\<lparr>ns_data := b\<rparr>)"
  by (simp add: doData_def Let_def)

lemma doComma_append:
  "ns_data st \<noteq> [] \<Longrightarrow>
   doComma (st\<lparr>ns_data := ns_data st @ b\<rparr>) = ns_more b (doComma st)"
  by (cases "ns_data st") (simp_all add: doComma_def ns_more_def Let_def)

lemma ns_loop_empty: "ns_data st = [] \<Longrightarrow> ns_loop cb st = Inr st"
  by (simp add: ns_loop.simps)

lemma ns_loop_DATA:
  "ns_data st \<noteq> [] \<Longrightarrow> ns_mode st = DATA \<Longrightarrow> ns_loop cb st = ns_loop cb (doData cb st)"
  by (simp add: ns_loop.simps [of cb st])

lemma ns_loop_COMMA:
  "ns_data st \<noteq> [] \<Longrightarrow> ns_mode st = COMMA \<Longrightarrow>
   ns_loop cb st = (case doComma st of Inl e \<Rightarrow> Inl e | Inr s' \<Rightarrow> ns_loop cb s')"
  by (simp add: ns_loop.simps [of cb st])

lemma ns_loop_LENGTH:
  "ns_data st \<noteq> [] \<Longrightarrow> ns_mode st = LENGTH \<Longrightarrow>
   ns_loop cb st = (case doLength st of Inl e \<Rightarrow> Inl e | Inr s' \<Rightarrow> ns_loop cb s')"
  by (simp add: ns_loop.simps [of cb st])

lemma ns_loop_two_chunks:
  "ns_loop cb (st\<lparr>ns_data := ns_data st @ b\<rparr>) = ns_then cb b (ns_loop cb st)"
proof (induction cb st rule: ns_loop.induct)
  case (1 cb st)
  let ?ab = "st\<lparr>ns_data := ns_data st @ b\<rparr>"
  show ?case
  proof (cases "ns_data st = []")
    case True
    then show ?thesis by (simp add: ns_loop_empty ns_then_def)
  next
    case ne: False
    then have ne': "ns_data ?ab \<noteq> []" by simp
    have via_more: "ns_loop cb ?ab = ns_then cb b (ns_loop cb st)"
      if step: "ns_loop cb st = (case f st of Inl e \<Rightarrow> Inl e | Inr s' \<Rightarrow> ns_loop cb s')"
        and step': "ns_loop cb ?ab = (case f ?ab of Inl e \<Rightarrow> Inl e | Inr s' \<Rightarrow> ns_loop cb s')"
        and more: "f ?ab = ns_more b (f st)"
        and IH: "\<And>x. f st = Inr x \<Longrightarrow>
                  ns_loop cb (x\<lparr>ns_data := ns_data x @ b\<rparr>) = ns_then cb b (ns_loop cb x)"
      for f
    proof (cases "f st")
      case (Inl p)
      then show ?thesis
        by (cases p) (simp add: step step' more ns_more_def ns_then_def)
    next
      case (Inr x)
      then show ?thesis
        using IH [OF Inr] by (simp add: step step' more ns_more_def)
    qed
    show ?thesis
    proof (cases "ns_mode st")
      case DATA
      have unf: "ns_loop cb st = ns_loop cb (doData cb st)"
        using ne DATA by (rule ns_loop_DATA)
      have unf': "ns_loop cb ?ab = ns_loop cb (doData cb ?ab)"
        using ne DATA by (intro ns_loop_DATA) simp_all
      show ?thesis
      proof (cases "ns_length st \<le> length (ns_data st)")
        case True
        show ?thesis
          using "1.IH"(2) [OF ne DATA] by (simp add: unf unf' doData_enough [OF True])
      next
        case False
        then have short: "length (ns_data st) < ns_length st" by simp
        let ?s1 = "doData cb st"
        have s1: "ns_data ?s1 = []" "ns_mode ?s1 = DATA"
          using DATA by (simp_all add: doData_short [OF short])
        have l: "ns_loop cb st = Inr ?s1"
          using s1 by (simp add: unf ns_loop_empty)
        show ?thesis
        proof (cases "b = []")
          case True
          then show ?thesis using s1 by (simp add: l ns_then_def ns_loop_empty)
        next
          case False
          then have "ns_loop cb (?s1\<lparr>ns_data := b\<rparr>) = ns_loop cb (doData cb (?s1\<lparr>ns_data := b\<rparr>))"
            using s1 by (intro ns_loop_DATA) simp_all
          then show ?thesis
            by (simp add: l ns_then_def unf' doData_short_append [OF short])
        qed
      qed
    next
      case COMMA
      have unf: "ns_loop cb st = (case doComma st of Inl e \<Rightarrow> Inl e | Inr s' \<Rightarrow> ns_loop cb s')"
        using ne COMMA by (rule ns_loop_COMMA)
      have unf': "ns_loop cb ?ab = (case doComma ?ab of Inl e \<Rightarrow> Inl e | Inr s' \<Rightarrow> ns_loop cb s')"
        using ne COMMA by (intro ns_loop_COMMA) simp_all
      show ?thesis
        by (rule via_more [OF unf unf' doComma_append [OF ne]]) (rule "1.IH"(3) [OF ne COMMA])
    next
      case LENGTH
      have unf: "ns_loop cb st = (case doLength st of Inl e \<Rightarrow> Inl e | Inr s' \<Rightarrow> ns_loop cb s')"
        using ne LENGTH by (rule ns_loop_LENGTH)
      have unf': "ns_loop cb ?ab = (case doLength ?ab of Inl e \<Rightarrow> Inl e | Inr s' \<Rightarrow> ns_loop cb s')"
        using ne LENGTH by (intro ns_loop_LENGTH) simp_all
      show ?thesis
      proof (cases "dropWhile isdigit (ns_data st) = []")
        case False
        show ?thesis
          by (rule via_more [OF unf unf' doLength_stop [OF False]]) (rule "1.IH"(1) [OF ne LENGTH])
      next
        case True
        let ?s1 = "st\<lparr>ns_length := ns_length st * 10 ^ length (ns_data st) + py_int (ns_data st), ns_data := []\<rparr>"
        have l: "ns_loop cb st = Inr ?s1"
          by (simp add: unf doLength_digits [OF ne True] ns_loop_empty)
        show ?thesis
        proof (cases "b = []")
          case True
          then show ?thesis by (simp add: l ns_then_def ns_loop_empty)
        next
          case False
          have "ns_loop cb (?s1\<lparr>ns_data := b\<rparr>) =
                (case doLength (?s1\<lparr>ns_data := b\<rparr>) of Inl e \<Rightarrow> Inl e | Inr s' \<Rightarrow> ns_loop cb s')"
            using False LENGTH by (intro ns_loop_LENGTH) simp_all
          then show ?thesis
            by (simp add: l ns_then_def unf' doLength_after_digits [OF ne True False])
        qed
      qed
    qed
  qed
qed

lemma ns_loop_Inr_data: "ns_loop cb st = Inr s \<Longrightarrow> ns_data s = []"
proof (induction cb st rule: ns_loop.induct)
  case (1 cb st)
  show ?case
  proof (cases "ns_data st = []")
    case True
    with "1.prems" show ?thesis by (simp add: ns_loop_empty)
  next
    case ne: False
    show ?thesis
    proof (cases "ns_mode st")
      case LENGTH
      from "1.prems" obtain x where x: "doLength st = Inr x" and l: "ns_loop cb x = Inr s"
        unfolding ns_loop_LENGTH [OF ne LENGTH] by (cases "doLength st") simp_all
      from ne LENGTH x l show ?thesis by (rule "1.IH"(1))
    next
      case DATA
      from "1.prems" have l: "ns_loop cb (doData cb st) = Inr s"
        unfolding ns_loop_DATA [OF ne DATA] .
      from ne DATA l show ?thesis by (rule "1.IH"(2))
    next
      case COMMA
      from "1.prems" obtain x where x: "doComma st = Inr x" and l: "ns_loop cb x = Inr s"
        unfolding ns_loop_COMMA [OF ne COMMA] by (cases "doComma st") simp_all
      from ne COMMA x l show ?thesis by (rule "1.IH"(3))
    qed
  qed
qed

lemma forget_rest_ext [simp]: "forget_rest (ext_error e b) = forget_rest e"
  by (cases e) simp_all

lemma ns_feed_Cons:
  "ns_feed cb st (c # cs) =
   (case ns_dataReceived cb st c of Inl e \<Rightarrow> Inl e | Inr s \<Rightarrow> ns_feed cb s cs)"
proof -
  have stuck: "foldl (\<lambda>r c. case r of Inl e \<Rightarrow> Inl e | Inr s \<Rightarrow> ns_dataReceived cb s c) (Inl e) cs = Inl e"
    for e by (induction cs) simp_all
  show ?thesis
    by (cases "ns_dataReceived cb st c") (simp_all add: ns_feed_def stuck)
qed

lemma ns_dataReceived_append:
  "ns_dataReceived cb st (a @ b) = ns_then cb b (ns_dataReceived cb st a)"
  using ns_loop_two_chunks [of cb "st\<lparr>ns_data := a\<rparr>" b] by (simp add: ns_dataReceived_def)

lemma ns_then_Inr: "ns_then cb b (Inr s) = ns_dataReceived cb s b"
  by (simp add: ns_then_def ns_dataReceived_def)

lemma ns_then_Inl: "ns_then cb b (Inl (e, s)) = Inl (ext_error e b, s\<lparr>ns_data := ns_data s @ b\<rparr>)"
  by (simp add: ns_then_def)

lemma ns_feed_concat:
  "ns_data st = [] \<Longrightarrow>
   ns_outcome (ns_feed cb st chunks) = ns_outcome (ns_dataReceived cb st (concat chunks))"
proof (induction chunks arbitrary: st)
  case Nil
  then have "st\<lparr>ns_data := []\<rparr> = st" by simp
  moreover from Nil have "ns_loop cb st = Inr st" by (rule ns_loop_empty)
  ultimately show ?case by (simp add: ns_feed_def ns_dataReceived_def)
next
  case (Cons c cs)
  show ?case
  proof (cases "ns_dataReceived cb st c")
    case (Inl p)
    then show ?thesis
      by (cases p) (simp add: ns_feed_Cons ns_dataReceived_append ns_then_Inl ns_outcome_def)
  next
    case (Inr s1)
    then have "ns_data s1 = []" by (simp add: ns_dataReceived_def ns_loop_Inr_data)
    then have "ns_outcome (ns_feed cb s1 cs) = ns_outcome (ns_dataReceived cb s1 (concat cs))"
      by (rule Cons.IH)
    then show ?thesis
      by (simp add: ns_feed_Cons ns_dataReceived_append ns_then_Inr Inr)
  qed
qed

lemma digits_takeWhile: "list_all isdigit ds \<Longrightarrow> \<not> isdigit c \<Longrightarrow>
   takeWhile isdigit (ds @ c # rest) = ds \<and> dropWhile isdigit (ds @ c # rest) = c # rest"
  by (induction ds) simp_all

lemma NUMBER_match_colon: "list_all isdigit ds \<Longrightarrow> NUMBER_match (ds @ CHR '':'' # rest) = (ds, '':'')"
  using digits_takeWhile [of ds "CHR '':''" rest]
  by (simp add: NUMBER_match_def isdigit_def)

lemma NUMBER_match_other: "list_all isdigit ds \<Longrightarrow> \<not> isdigit c \<Longrightarrow> c \<noteq> CHR '':'' \<Longrightarrow>
   NUMBER_match (ds @ c # rest) = (ds, [])"
  using digits_takeWhile [of ds c rest]
  by (simp add: NUMBER_match_def)

lemma ns_length_digits:
  "(if ds \<noteq> [] then n * 10 ^ length ds + py_int ds else n) = foldl (\<lambda>a c. 10 * a + digit_val c) n ds"
  by (simp add: py_int_foldl [of n ds] py_int_def)

lemma doLength_bad:
  assumes "list_all isdigit ds" "\<not> isdigit c" "c \<noteq> CHR '':''" "ns_mode st = LENGTH"
  shows "ns_loop cb (st\<lparr>ns_data := ds @ c # rest\<rparr>) =
         Inl (NetstringParseError (c # rest),
              st\<lparr>ns_length := foldl (\<lambda>a c. 10 * a + digit_val c) (ns_length st) ds,
                 ns_data := c # rest\<rparr>)"
proof -
  have bad: "ns_loop cb (s\<lparr>ns_data := c # rest\<rparr>) = Inl (NetstringParseError (c # rest), s\<lparr>ns_data := c # rest\<rparr>)"
    if "ns_mode s = LENGTH" for s :: "'a NetstringReceiver"
    using that assms(2,3) NUMBER_match_other [of "[]" c rest]
    by (simp add: ns_loop_LENGTH doLength_def)
  show ?thesis
  proof (cases "ds = []")
    case True
    with bad [OF assms(4)] show ?thesis by simp
  next
    case False
    let ?s = "st\<lparr>ns_length := ns_length st * 10 ^ length ds + py_int ds\<rparr>"
    have "doLength (st\<lparr>ns_data := ds @ c # rest\<rparr>) = Inr (?s\<lparr>ns_data := c # rest\<rparr>)"
      using False by (simp add: doLength_def NUMBER_match_other [OF assms(1-3)])
    then have "ns_loop cb (st\<lparr>ns_data := ds @ c # rest\<rparr>) = ns_loop cb (?s\<lparr>ns_data := c # rest\<rparr>)"
      using assms(4) by (simp add: ns_loop_LENGTH)
    also have "\<dots> = Inl (NetstringParseError (c # rest), ?s\<lparr>ns_data := c # rest\<rparr>)"
      using assms(4) by (intro bad) simp
    finally show ?thesis
      using False ns_length_digits [of ds "ns_length st"] by simp
  qed
qed

lemma ns_digits_only:
  assumes "list_all isdigit ds" "ns_mode st = LENGTH"
  shows "ns_dataReceived cb st ds =
         Inr (st\<lparr>ns_length := foldl (\<lambda>a c. 10 * a + digit_val c) (ns_length st) ds, ns_data := []\<rparr>)"
proof (cases "ds = []")
  case True
  then show ?thesis by (simp add: ns_dataReceived_def ns_loop_empty)
next
  case False
  have dw: "dropWhile isdigit ds = []"
    using assms(1) by (simp add: dropWhile_eq_Nil_conv list_all_iff)
  have "doLength (st\<lparr>ns_data := ds\<rparr>) =
        Inr (st\<lparr>ns_length := ns_length st * 10 ^ length ds + py_int ds, ns_data := []\<rparr>)"
    using doLength_digits [of "st\<lparr>ns_data := ds\<rparr>"] False dw by simp
  then show ?thesis
    using False assms(2) ns_length_digits [of ds "ns_length st"]
    by (simp add: ns_dataReceived_def ns_loop_LENGTH ns_loop_empty)
qed

lemma digit_char_props: "d < 10 \<Longrightarrow> isdigit (digit_char d) \<and> digit_val (digit_char d) = d"
  by (simp add: isdigit_def digit_val_def digit_char_def)

lemma decimal_digits: "list_all isdigit (decimal n)"
proof (induction n rule: decimal.induct)
  case (1 n)
  show ?case
  proof (cases "n < 10")
    case True
    then show ?thesis by (subst decimal.simps) (simp add: digit_char_props)
  next
    case False
    with "1.IH" show ?thesis by (subst decimal.simps) (simp add: digit_char_props)
  qed
qed

lemma decimal_nonempty: "decimal n \<noteq> []"
  by (subst decimal.simps) simp

lemma py_int_decimal: "py_int (decimal n) = n"
proof (induction n rule: decimal.induct)
  case (1 n)
  show ?case
  proof (cases "n < 10")
    case True
    then show ?thesis by (subst decimal.simps) (simp add: py_int_def digit_char_props)
  next
    case False
    then have "py_int (decimal (n div 10)) = n div 10" by (rule "1.IH")
    moreover have "py_int [digit_char (n mod 10)] = n mod 10"
      by (simp add: py_int_def digit_char_props)
    ultimately have "py_int (decimal (n div 10) @ [digit_char (n mod 10)]) = n"
      by (simp add: py_int_append)
    with False show ?thesis by (subst decimal.simps) simp
  qed
qed

lemma ns_payload_then_comma:
  assumes "ns_mode st = DATA" "length p = ns_length st"
  shows "ns_loop cb (st\<lparr>ns_data := p @ c # rest\<rparr>) =
         (case doComma (st\<lparr>ns_mode := COMMA, ns_length := 0, ns_buffer := ns_buffer st @ p,
                              ns_data := c # rest, ns_user := cb (ns_buffer st @ p) (ns_user st)\<rparr>) of
            Inl e \<Rightarrow> Inl e | Inr s' \<Rightarrow> ns_loop cb s')"
proof -
  let ?s = "st\<lparr>ns_mode := COMMA, ns_length := 0, ns_buffer := ns_buffer st @ p,
              ns_data := c # rest, ns_user := cb (ns_buffer st @ p) (ns_user st)\<rparr>"
  have "doData cb (st\<lparr>ns_data := p @ c # rest\<rparr>) = ?s"
    using assms(2) [symmetric] by (simp add: doData_def)
  then have "ns_loop cb (st\<lparr>ns_data := p @ c # rest\<rparr>) = ns_loop cb ?s"
    using assms(1) by (simp add: ns_loop_DATA)
  then show ?thesis by (simp add: ns_loop_COMMA)
qed

lemma ns_payload_then_byte:
  assumes "ns_mode st = DATA \<and> length p = ns_length st"
  shows "ns_loop cb (st\<lparr>ns_data := p @ c # rest\<rparr>) =
         (if c = CHR '',''
          then ns_loop cb
                 (st\<lparr>ns_mode := LENGTH, ns_length := 0, ns_buffer := ns_buffer st @ p,
                     ns_user := cb (ns_buffer st @ p) (ns_user st), ns_data := rest\<rparr>)
          else Inl (NetstringParseError (c # rest),
                    st\<lparr>ns_mode := LENGTH, ns_length := 0, ns_buffer := ns_buffer st @ p,
                       ns_data := c # rest, ns_user := cb (ns_buffer st @ p) (ns_user st)\<rparr>))"
proof -
  let ?s = "st\<lparr>ns_mode := COMMA, ns_length := 0, ns_buffer := ns_buffer st @ p,
              ns_data := c # rest, ns_user := cb (ns_buffer st @ p) (ns_user st)\<rparr>"
  have comma: "doComma ?s =
        Inr (st\<lparr>ns_mode := LENGTH, ns_length := 0, ns_buffer := ns_buffer st @ p,
                ns_user := cb (ns_buffer st @ p) (ns_user st), ns_data := rest\<rparr>)"
    if "c = CHR '',''"
    using that by (simp add: doComma_def)
  have other: "doComma ?s =
        Inl (NetstringParseError (c # rest),
             st\<lparr>ns_mode := LENGTH, ns_length := 0, ns_buffer := ns_buffer st @ p,
                ns_data := c # rest, ns_user := cb (ns_buffer st @ p) (ns_user st)\<rparr>)"
    if "c \<noteq> CHR '',''"
    using that by (simp add: doComma_def)
  have step: "ns_loop cb (st\<lparr>ns_data := p @ c # rest\<rparr>) =
        (case doComma ?s of Inl e \<Rightarrow> Inl e | Inr s' \<Rightarrow> ns_loop cb s')"
    using assms by (intro ns_payload_then_comma) simp_all
  show ?thesis
  proof (cases "c = CHR '',''")
    case True
    show ?thesis unfolding step comma [OF True] using True by simp
  next
    case False
    show ?thesis unfolding step other [OF False] using False by simp
  qed
qed

lemma ns_comma_step:
  assumes "ns_mode st = COMMA"
  shows "ns_loop cb (st\<lparr>ns_data := c # rest\<rparr>) =
         (if c = CHR '','' then ns_loop cb (st\<lparr>ns_mode := LENGTH, ns_data := rest\<rparr>)
          else Inl (NetstringParseError (c # rest), st\<lparr>ns_mode := LENGTH, ns_data := c # rest\<rparr>))"
  using assms by (simp add: ns_loop_COMMA doComma_def)

lemma ns_payload_complete:
  assumes "ns_mode st = DATA" "length p = ns_length st" "p \<noteq> []"
  shows "ns_dataReceived cb st p =
         Inr (st\<lparr>ns_mode := COMMA, ns_length := 0, ns_buffer := ns_buffer st @ p, ns_data := [],
                 ns_user := cb (ns_buffer st @ p) (ns_user st)\<rparr>)"
proof -
  have "doData cb (st\<lparr>ns_data := p\<rparr>) =
        st\<lparr>ns_mode := COMMA, ns_length := 0, ns_buffer := ns_buffer st @ p, ns_data := [],
           ns_user := cb (ns_buffer st @ p) (ns_user st)\<rparr>"
    using assms(2) [symmetric] by (simp add: doData_def)
  then show ?thesis
    using assms(1,3) by (simp add: ns_dataReceived_def ns_loop_DATA ns_loop_empty)
qed

lemma ns_roundtrip:
  "ns_dataReceived cb (ns_fresh u) (ns_sendString P) =
   Inr \<lparr>ns_mode = LENGTH, ns_length = 0, ns_buffer = P, ns_data = [], ns_user = cb P u\<rparr>"
proof -
  let ?n = "length P"
  let ?s1 = "\<lparr>ns_mode = DATA, ns_length = ?n, ns_buffer = [], ns_data = [], ns_user = u\<rparr>"
  have "doLength ((ns_fresh u)\<lparr>ns_data := decimal ?n @ CHR '':'' # P @ '',''\<rparr>) =
        Inr (?s1\<lparr>ns_data := P @ '',''\<rparr>)"
    by (simp add: doLength_def ns_fresh_def NUMBER_match_colon [OF decimal_digits]
        decimal_nonempty py_int_decimal)
  then have "ns_dataReceived cb (ns_fresh u) (ns_sendString P) = ns_loop cb (?s1\<lparr>ns_data := P @ '',''\<rparr>)"
    by (simp add: ns_dataReceived_def ns_sendString_def ns_loop_LENGTH ns_fresh_def)
  also have "\<dots> = ns_loop cb \<lparr>ns_mode = LENGTH, ns_length = 0, ns_buffer = P, ns_data = [], ns_user = cb P u\<rparr>"
    using ns_payload_then_comma [of ?s1 P cb "CHR '',''" "[]"]
    by (simp add: doComma_def)
  finally show ?thesis by (simp add: ns_loop_empty)
qed

section \<open>NetstringReceiver: a length field split over chunks\<close>

text \<open>
  Digits followed by \<open>:\<close> in mode \<open>LENGTH\<close>: the digits are folded into the pending
  length, whatever it was when the chunk began, and the loop goes on in mode \<open>DATA\<close> with
  the bytes after the \<open>:\<close>. With no digit before the \<open>:\<close> the pending length is kept.
\<close>

lemma ns_length_then_colon:
  assumes "ns_mode st = LENGTH" "list_all isdigit ds"
  shows "ns_dataReceived cb st (ds @ CHR '':'' # rest) =
         ns_dataReceived cb
           (st\<lparr>ns_mode := DATA,
               ns_length := foldl (\<lambda>a c. 10 * a + digit_val c) (ns_length st) ds,
               ns_buffer := []\<rparr>) rest"
proof -
  have len: "(if ds \<noteq> [] then ns_length st * 10 ^ length ds + py_int ds else ns_length st) =
             foldl (\<lambda>a c. 10 * a + digit_val c) (ns_length st) ds"
    by (rule ns_length_digits)
  have "doLength (st\<lparr>ns_data := ds @ CHR '':'' # rest\<rparr>) =
        Inr (st\<lparr>ns_mode := DATA,
                ns_length := foldl (\<lambda>a c. 10 * a + digit_val c) (ns_length st) ds,
                ns_buffer := [], ns_data := rest\<rparr>)"
    using len NUMBER_match_colon [OF assms(2), of rest]
    by (cases "ds = []") (simp_all add: doLength_def)
  then show ?thesis
    using assms(1) by (simp add: ns_dataReceived_def ns_loop_LENGTH)
qed

lemma ns_feed_digit_chunks:
  assumes "list_all (list_all isdigit) dss" "ns_mode st = LENGTH" "ns_data st = []"
  shows "ns_feed cb st dss =
         Inr (st\<lparr>ns_length := foldl (\<lambda>a c. 10 * a + digit_val c) (ns_length st) (concat dss)\<rparr>)"
  using assms
proof (induction dss arbitrary: st)
  case Nil
  then show ?case by (simp add: ns_feed_def)
next
  case (Cons ds dss)
  let ?f = "\<lambda>a c. 10 * a + digit_val c"
  let ?s1 = "st\<lparr>ns_length := foldl ?f (ns_length st) ds, ns_data := []\<rparr>"
  have first: "ns_dataReceived cb st ds = Inr ?s1"
    using Cons.prems by (intro ns_digits_only) simp_all
  have rest: "ns_feed cb ?s1 dss = Inr (?s1\<lparr>ns_length := foldl ?f (ns_length ?s1) (concat dss)\<rparr>)"
    using Cons.prems by (intro Cons.IH) simp_all
  have eq: "?s1\<lparr>ns_length := foldl ?f (ns_length ?s1) (concat dss)\<rparr> =
            st\<lparr>ns_length := foldl ?f (ns_length st) (concat (ds # dss))\<rparr>"
    using Cons.prems(3) by (cases st) simp
  show ?case
    unfolding ns_feed_Cons first using rest eq by simp
qed

lemma ns_feed_snoc:
  "ns_feed cb st (cs @ [c]) =
   (case ns_feed cb st cs of Inl e \<Rightarrow> Inl e | Inr s \<Rightarrow> ns_dataReceived cb s c)"
  by (simp add: ns_feed_def)

lemma ns_split_length_field_chunks:
  assumes "list_all (list_all isdigit) dss" "list_all isdigit ds" "length p = py_int (concat dss @ ds)"
  shows "ns_feed cb (ns_fresh u) (dss @ [ds @ CHR '':'' # p @ '','']) =
         Inr \<lparr>ns_mode = LENGTH, ns_length = 0, ns_buffer = p, ns_data = [], ns_user = cb p u\<rparr>"
proof -
  let ?f = "\<lambda>a c. 10 * a + digit_val c"
  let ?s1 = "(ns_fresh u)\<lparr>ns_length := foldl ?f (ns_length (ns_fresh u)) (concat dss)\<rparr>"
  have first: "ns_feed cb (ns_fresh u) dss = Inr ?s1"
    using assms(1) by (intro ns_feed_digit_chunks) (simp_all add: ns_fresh_def)
  have total: "foldl ?f (ns_length ?s1) ds = length p"
    using assms(3) by (simp add: ns_fresh_def py_int_def)
  let ?s2 = "\<lparr>ns_mode = DATA, ns_length = length p, ns_buffer = [], ns_data = [], ns_user = u\<rparr>"
  have "?s1\<lparr>ns_mode := DATA, ns_length := foldl ?f (ns_length ?s1) ds, ns_buffer := []\<rparr> = ?s2"
    unfolding total by (simp add: ns_fresh_def)
  then have second: "ns_dataReceived cb ?s1 (ds @ CHR '':'' # p @ '','') = ns_dataReceived cb ?s2 (p @ '','')"
    using ns_length_then_colon [of ?s1 ds cb "p @ '',''"] assms(2) by (simp add: ns_fresh_def)
  have "ns_dataReceived cb ?s2 (p @ '','') =
        ns_loop cb \<lparr>ns_mode = LENGTH, ns_length = 0, ns_buffer = p, ns_data = [], ns_user = cb p u\<rparr>"
    using ns_payload_then_byte [of ?s2 p cb "CHR '',''" "[]"] by (simp add: ns_dataReceived_def)
  also have "\<dots> = Inr \<lparr>ns_mode = LENGTH, ns_length = 0, ns_buffer = p, ns_data = [], ns_user = cb p u\<rparr>"
    by (simp add: ns_loop_empty)
  finally have third: "ns_dataReceived cb ?s2 (p @ '','') =
      Inr \<lparr>ns_mode = LENGTH, ns_length = 0, ns_buffer = p, ns_data = [], ns_user = cb p u\<rparr>" .
  show ?thesis
    unfolding ns_feed_snoc first by (simp add: second third)
qed

section \<open>NetstringReceiver: the length field, the terminator\<close>

text \<open>
  Claim C10. No digit is required before the separator. Fed \<open>":,"\<close>, a fresh receiver
  raises nothing, calls \<open>stringReceived\<close> exactly once, with the empty string, and is in
  its initial state again (mode \<open>LENGTH\<close>, length 0, nothing unconsumed): the final
  application state is the callback applied once to \<open>''\<close> and the initial one.
\<close>

theorem netstring_no_digit_before_colon:
  "ns_dataReceived cb (ns_fresh u) '':,'' = Inr (ns_fresh (cb [] u))"
  by (simp add: ns_dataReceived_def ns_fresh_def ns_loop.simps doLength_def doData_def
      doComma_def NUMBER_match_def isdigit_def Let_def)

text \<open>
  Claim C5. The length field accumulates across chunks; it is never required whole in
  one chunk.
  \<^item> A chunk of decimal digits only, received in mode \<open>LENGTH\<close>, is consumed whole and
    raises nothing; each digit, from the left, multiplies the pending length by 10 and adds
    its value; the receiver stays in mode \<open>LENGTH\<close>.
  \<^item> Digits followed by \<open>:\<close>, received in mode \<open>LENGTH\<close> with any pending length, are
    folded into that pending length in the same way, and decoding goes on in mode \<open>DATA\<close>
    with the length so accumulated and the bytes after the \<open>:\<close>. This includes no digit at
    all: a \<open>:\<close> that starts a chunk keeps the length accumulated by the chunks before.
  \<^item> However the digits of a length field are cut into chunks (empty chunks included),
    with the \<open>:\<close>, a payload of the declared number of bytes and the \<open>,\<close> in the last
    chunk, a fresh receiver raises nothing, calls \<open>stringReceived\<close> exactly once, with the
    payload, and is back in mode \<open>LENGTH\<close> with length 0 and nothing unconsumed (the
    private \<open>__buffer\<close> still holds the delivered payload until the next \<open>:\<close>).
  \<^item> Fed \<open>"1"\<close>, \<open>"2:ab"\<close>, \<open>"cdefghijkl,"\<close>, a fresh receiver has length 1 after the
    first chunk, is in mode \<open>DATA\<close> with 10 of 12 bytes outstanding after the second, and
    after the third has called \<open>stringReceived\<close> exactly once, with the 12 bytes
    \<open>"abcdefghijkl"\<close>, and is back in mode \<open>LENGTH\<close> with length 0. Fed \<open>"12"\<close>,
    \<open>":abcdefghijkl,"\<close>, it delivers the same one frame.
\<close>

theorem netstring_length_accumulates:
  "(ns_mode st = LENGTH \<and> list_all isdigit ds \<longrightarrow>
      ns_dataReceived cb st ds =
      Inr (st\<lparr>ns_length := foldl (\<lambda>a c. 10 * a + digit_val c) (ns_length st) ds,
              ns_data := []\<rparr>)) \<and>
   (ns_mode st = LENGTH \<and> list_all isdigit ds \<longrightarrow>
      ns_dataReceived cb st (ds @ CHR '':'' # rest) =
      ns_dataReceived cb
        (st\<lparr>ns_mode := DATA,
            ns_length := foldl (\<lambda>a c. 10 * a + digit_val c) (ns_length st) ds,
            ns_buffer := []\<rparr>) rest) \<and>
   (list_all (list_all isdigit) dss \<and> list_all isdigit ds' \<and> length p = py_int (concat dss @ ds') \<longrightarrow>
      ns_feed cb (ns_fresh u) (dss @ [ds' @ CHR '':'' # p @ '','']) =
      Inr \<lparr>ns_mode = LENGTH, ns_length = 0, ns_buffer = p, ns_data = [], ns_user = cb p u\<rparr>) \<and>
   ns_feed record_frame (ns_fresh []) [''1''] =
     Inr \<lparr>ns_mode = LENGTH, ns_length = 1, ns_buffer = [], ns_data = [], ns_user = []\<rparr> \<and>
   ns_feed record_frame (ns_fresh []) [''1'', ''2:ab''] =
     Inr \<lparr>ns_mode = DATA, ns_length = 10, ns_buffer = ''ab'', ns_data = [], ns_user = []\<rparr> \<and>
   ns_feed record_frame (ns_fresh []) [''1'', ''2:ab'', ''cdefghijkl,''] =
     Inr \<lparr>ns_mode = LENGTH, ns_length = 0, ns_buffer = ''abcdefghijkl'', ns_data = [],
          ns_user = [''abcdefghijkl'']\<rparr> \<and>
   ns_feed record_frame (ns_fresh []) [''12'', '':abcdefghijkl,''] =
     Inr \<lparr>ns_mode = LENGTH, ns_length = 0, ns_buffer = ''abcdefghijkl'', ns_data = [],
          ns_user = [''abcdefghijkl'']\<rparr>"
proof -
  have digits: "ns_dataReceived cb st ds =
      Inr (st\<lparr>ns_length := foldl (\<lambda>a c. 10 * a + digit_val c) (ns_length st) ds, ns_data := []\<rparr>)"
    if "ns_mode st = LENGTH \<and> list_all isdigit ds"
    using that by (simp add: ns_digits_only)
  have colon: "ns_dataReceived cb st (ds @ CHR '':'' # rest) =
      ns_dataReceived cb
        (st\<lparr>ns_mode := DATA,
            ns_length := foldl (\<lambda>a c. 10 * a + digit_val c) (ns_length st) ds,
            ns_buffer := []\<rparr>) rest"
    if "ns_mode st = LENGTH \<and> list_all isdigit ds"
    using that by (intro ns_length_then_colon) simp_all
  have chunks: "ns_feed cb (ns_fresh u) (dss @ [ds' @ CHR '':'' # p @ '','']) =
      Inr \<lparr>ns_mode = LENGTH, ns_length = 0, ns_buffer = p, ns_data = [], ns_user = cb p u\<rparr>"
    if "list_all (list_all isdigit) dss \<and> list_all isdigit ds' \<and> length p = py_int (concat dss @ ds')"
    using that by (intro ns_split_length_field_chunks) simp_all
  have one: "ns_feed record_frame (ns_fresh []) [''1''] =
     Inr \<lparr>ns_mode = LENGTH, ns_length = 1, ns_buffer = [], ns_data = [], ns_user = []\<rparr>"
    by (simp add: ns_feed_def ns_dataReceived_def ns_fresh_def ns_loop.simps doLength_def
        NUMBER_match_def isdigit_def py_int_def digit_val_def Let_def)
  have two: "ns_feed record_frame (ns_fresh []) [''1'', ''2:ab''] =
     Inr \<lparr>ns_mode = DATA, ns_length = 10, ns_buffer = ''ab'', ns_data = [], ns_user = []\<rparr>"
    by (simp add: ns_feed_def ns_dataReceived_def ns_fresh_def ns_loop.simps doLength_def
        doData_def NUMBER_match_def isdigit_def py_int_def digit_val_def Let_def)
  have three: "ns_feed record_frame (ns_fresh []) [''1'', ''2:ab'', ''cdefghijkl,''] =
     Inr \<lparr>ns_mode = LENGTH, ns_length = 0, ns_buffer = ''abcdefghijkl'', ns_data = [],
          ns_user = [''abcdefghijkl'']\<rparr>"
    by (simp add: ns_feed_def ns_dataReceived_def ns_fresh_def ns_loop.simps doLength_def
        doData_def doComma_def NUMBER_match_def isdigit_def py_int_def digit_val_def
        record_frame_def Let_def)
  have boundary: "ns_feed record_frame (ns_fresh []) [''12'', '':abcdefghijkl,''] =
     Inr \<lparr>ns_mode = LENGTH, ns_length = 0, ns_buffer = ''abcdefghijkl'', ns_data = [],
          ns_user = [''abcdefghijkl'']\<rparr>"
    by (simp add: ns_feed_def ns_dataReceived_def ns_fresh_def ns_loop.simps doLength_def
        doData_def doComma_def NUMBER_match_def isdigit_def py_int_def digit_val_def
        record_frame_def Let_def)
  from digits colon chunks one two three boundary show ?thesis
    by blast
qed

theorem netstring_length_accumulates_witness:
  "ns_mode (\<lparr>ns_mode = LENGTH, ns_length = 4, ns_buffer = ''old'', ns_data = [], ns_user = []\<rparr>
             :: bytes list NetstringReceiver) = LENGTH \<and>
   list_all isdigit ''07'' \<and>
   ns_dataReceived record_frame
     \<lparr>ns_mode = LENGTH, ns_length = 4, ns_buffer = ''old'', ns_data = [], ns_user = []\<rparr> ''07'' =
   Inr \<lparr>ns_mode = LENGTH, ns_length = 407, ns_buffer = ''old'', ns_data = [], ns_user = []\<rparr> \<and>
   ns_dataReceived record_frame
     \<lparr>ns_mode = LENGTH, ns_length = 4, ns_buffer = ''old'', ns_data = [], ns_user = []\<rparr> ''07:xy'' =
   ns_dataReceived record_frame
     \<lparr>ns_mode = DATA, ns_length = 407, ns_buffer = [], ns_data = [], ns_user = []\<rparr> ''xy'' \<and>
   list_all (list_all isdigit) [''0'', [], ''1''] \<and> list_all isdigit [] \<and>
   length ''z'' = py_int (concat [''0'', [], ''1''] @ []) \<and>
   ns_feed record_frame (ns_fresh []) [''0'', [], ''1'', '':z,''] =
   Inr \<lparr>ns_mode = LENGTH, ns_length = 0, ns_buffer = ''z'', ns_data = [], ns_user = [''z'']\<rparr>"
  using netstring_length_accumulates
    [where st = "\<lparr>ns_mode = LENGTH, ns_length = 4, ns_buffer = ''old'', ns_data = [], ns_user = []\<rparr>"
       and ds = "''07''" and cb = record_frame and rest = "''xy''"
       and dss = "[''0'', [], ''1'']" and ds' = "[]" and p = "''z''" and u = "[]"]
  by (simp add: isdigit_def digit_val_def py_int_def record_frame_def)

text \<open>
  Claim C7. While a length field is being read (mode \<open>LENGTH\<close>), a byte that is neither
  an ASCII decimal digit nor \<open>:\<close> makes \<open>dataReceived\<close> raise \<open>NetstringParseError\<close>
  (the one exception class of the module; the error the specification calls
  MalformedLengthPrefix is this exception raised by \<open>doLength\<close>), whether the byte is the
  first of the chunk or follows digits in it: the digits before it are consumed and
  accumulated, nothing is delivered, and the exception carries the input from the
  offending byte on. Fed \<open>"3xhi,"\<close>, a fresh receiver raises it with length 3 read. A chunk
  that ends after digits, with no \<open>:\<close> yet, raises nothing and leaves the receiver in mode
  \<open>LENGTH\<close>.
\<close>

theorem netstring_malformed_length:
  "(ns_mode st = LENGTH \<and> list_all isdigit ds \<and> \<not> isdigit c \<and> c \<noteq> CHR '':'' \<longrightarrow>
      ns_dataReceived cb st (ds @ c # rest) =
      Inl (NetstringParseError (c # rest),
           st\<lparr>ns_length := foldl (\<lambda>a c. 10 * a + digit_val c) (ns_length st) ds,
              ns_data := c # rest\<rparr>)) \<and>
   ns_dataReceived record_frame (ns_fresh []) ''3xhi,'' =
     Inl (NetstringParseError ''xhi,'',
          \<lparr>ns_mode = LENGTH, ns_length = 3, ns_buffer = [], ns_data = ''xhi,'', ns_user = []\<rparr>) \<and>
   (ns_mode st = LENGTH \<and> list_all isdigit ds \<longrightarrow>
      (\<exists>s. ns_dataReceived cb st ds = Inr s \<and> ns_mode s = LENGTH \<and> ns_user s = ns_user st))"
proof (intro conjI impI)
  assume "ns_mode st = LENGTH \<and> list_all isdigit ds \<and> \<not> isdigit c \<and> c \<noteq> CHR '':''"
  then show "ns_dataReceived cb st (ds @ c # rest) =
      Inl (NetstringParseError (c # rest),
           st\<lparr>ns_length := foldl (\<lambda>a c. 10 * a + digit_val c) (ns_length st) ds,
              ns_data := c # rest\<rparr>)"
    by (simp add: ns_dataReceived_def doLength_bad)
next
  show "ns_dataReceived record_frame (ns_fresh []) ''3xhi,'' =
     Inl (NetstringParseError ''xhi,'',
          \<lparr>ns_mode = LENGTH, ns_length = 3, ns_buffer = [], ns_data = ''xhi,'', ns_user = []\<rparr>)"
    by (simp add: ns_dataReceived_def ns_fresh_def ns_loop.simps doLength_def
        NUMBER_match_def isdigit_def py_int_def digit_val_def Let_def)
next
  assume "ns_mode st = LENGTH \<and> list_all isdigit ds"
  then show "\<exists>s. ns_dataReceived cb st ds = Inr s \<and> ns_mode s = LENGTH \<and> ns_user s = ns_user st"
    by (simp add: ns_digits_only)
qed

theorem netstring_malformed_length_witness:
  "ns_mode (ns_fresh ([] :: bytes list)) = LENGTH \<and> list_all isdigit ''12'' \<and>
   \<not> isdigit CHR ''x'' \<and> CHR ''x'' \<noteq> CHR '':'' \<and>
   ns_dataReceived record_frame (ns_fresh []) ''12x:'' =
     Inl (NetstringParseError ''x:'',
          \<lparr>ns_mode = LENGTH, ns_length = 12, ns_buffer = [], ns_data = ''x:'', ns_user = []\<rparr>) \<and>
   (\<exists>s. ns_dataReceived record_frame (ns_fresh []) ''12'' = Inr s \<and> ns_mode s = LENGTH \<and>
        ns_user s = [])"
  using netstring_malformed_length [of "ns_fresh []" "''12''" "CHR ''x''" record_frame "'':''"]
  by (simp add: isdigit_def digit_val_def ns_fresh_def)

text \<open>
  Claim C8. \<open>doData\<close> delivers a payload frame when the outstanding length reaches 0,
  and the receiver is then in mode \<open>COMMA\<close> with length 0. The next byte
  consumed, in the same chunk or in a later one, must be \<open>,\<close>: if it is, it is consumed
  and the rest of the input is read by the receiver in mode \<open>LENGTH\<close> (with length 0 after
  a delivery); any other byte makes \<open>dataReceived\<close> raise \<open>NetstringParseError\<close> (the one
  exception class of the module; the error the specification calls MissingTerminator is
  this exception raised by \<open>doComma\<close>), after \<open>doComma\<close> has set the mode to \<open>LENGTH\<close>.
\<close>

theorem netstring_terminator:
  "(ns_mode st = DATA \<and> length p = ns_length st \<and> p \<noteq> [] \<longrightarrow>
      ns_dataReceived cb st p =
      Inr (st\<lparr>ns_mode := COMMA, ns_length := 0, ns_buffer := ns_buffer st @ p, ns_data := [],
              ns_user := cb (ns_buffer st @ p) (ns_user st)\<rparr>)) \<and>
   (ns_mode st = COMMA \<longrightarrow>
      ns_dataReceived cb st (CHR '','' # rest) = ns_dataReceived cb (st\<lparr>ns_mode := LENGTH\<rparr>) rest) \<and>
   (ns_mode st = COMMA \<and> c \<noteq> CHR '','' \<longrightarrow>
      ns_dataReceived cb st (c # rest) =
      Inl (NetstringParseError (c # rest), st\<lparr>ns_mode := LENGTH, ns_data := c # rest\<rparr>)) \<and>
   (ns_mode st = DATA \<and> length p = ns_length st \<longrightarrow>
      ns_dataReceived cb st (p @ c # rest) =
      (if c = CHR '',''
       then ns_dataReceived cb
              (st\<lparr>ns_mode := LENGTH, ns_length := 0, ns_buffer := ns_buffer st @ p,
                  ns_user := cb (ns_buffer st @ p) (ns_user st)\<rparr>) rest
       else Inl (NetstringParseError (c # rest),
                 st\<lparr>ns_mode := LENGTH, ns_length := 0, ns_buffer := ns_buffer st @ p,
                    ns_data := c # rest, ns_user := cb (ns_buffer st @ p) (ns_user st)\<rparr>)))"
proof (intro conjI impI)
  assume "ns_mode st = DATA \<and> length p = ns_length st \<and> p \<noteq> []"
  then show "ns_dataReceived cb st p =
      Inr (st\<lparr>ns_mode := COMMA, ns_length := 0, ns_buffer := ns_buffer st @ p, ns_data := [],
              ns_user := cb (ns_buffer st @ p) (ns_user st)\<rparr>)"
    by (simp add: ns_payload_complete)
next
  assume "ns_mode st = COMMA"
  then show "ns_dataReceived cb st (CHR '','' # rest) = ns_dataReceived cb (st\<lparr>ns_mode := LENGTH\<rparr>) rest"
    by (simp add: ns_dataReceived_def ns_comma_step)
next
  assume "ns_mode st = COMMA \<and> c \<noteq> CHR '',''"
  then show "ns_dataReceived cb st (c # rest) =
      Inl (NetstringParseError (c # rest), st\<lparr>ns_mode := LENGTH, ns_data := c # rest\<rparr>)"
    by (simp add: ns_dataReceived_def ns_comma_step)
next
  assume "ns_mode st = DATA \<and> length p = ns_length st"
  then show "ns_dataReceived cb st (p @ c # rest) =
      (if c = CHR '',''
       then ns_dataReceived cb
              (st\<lparr>ns_mode := LENGTH, ns_length := 0, ns_buffer := ns_buffer st @ p,
                  ns_user := cb (ns_buffer st @ p) (ns_user st)\<rparr>) rest
       else Inl (NetstringParseError (c # rest),
                 st\<lparr>ns_mode := LENGTH, ns_length := 0, ns_buffer := ns_buffer st @ p,
                    ns_data := c # rest, ns_user := cb (ns_buffer st @ p) (ns_user st)\<rparr>))"
    by (simp add: ns_dataReceived_def ns_payload_then_byte)
qed

theorem netstring_terminator_witness:
  "ns_dataReceived record_frame
     \<lparr>ns_mode = DATA, ns_length = 2, ns_buffer = ''a'', ns_data = [], ns_user = []\<rparr> ''bc'' =
     Inr \<lparr>ns_mode = COMMA, ns_length = 0, ns_buffer = ''abc'', ns_data = [], ns_user = [''abc'']\<rparr> \<and>
   ns_dataReceived record_frame
     \<lparr>ns_mode = COMMA, ns_length = 0, ns_buffer = ''abc'', ns_data = [], ns_user = [''abc'']\<rparr> '','' =
     Inr \<lparr>ns_mode = LENGTH, ns_length = 0, ns_buffer = ''abc'', ns_data = [], ns_user = [''abc'']\<rparr> \<and>
   ns_dataReceived record_frame
     \<lparr>ns_mode = COMMA, ns_length = 0, ns_buffer = ''abc'', ns_data = [], ns_user = [''abc'']\<rparr> ''x'' =
     Inl (NetstringParseError ''x'',
          \<lparr>ns_mode = LENGTH, ns_length = 0, ns_buffer = ''abc'', ns_data = ''x'', ns_user = [''abc'']\<rparr>) \<and>
   ns_dataReceived record_frame
     \<lparr>ns_mode = DATA, ns_length = 2, ns_buffer = ''a'', ns_data = [], ns_user = []\<rparr> ''bc,'' =
     Inr \<lparr>ns_mode = LENGTH, ns_length = 0, ns_buffer = ''abc'', ns_data = [], ns_user = [''abc'']\<rparr> \<and>
   ns_dataReceived record_frame
     \<lparr>ns_mode = DATA, ns_length = 2, ns_buffer = ''a'', ns_data = [], ns_user = []\<rparr> ''bc;1'' =
     Inl (NetstringParseError '';1'',
          \<lparr>ns_mode = LENGTH, ns_length = 0, ns_buffer = ''abc'', ns_data = '';1'', ns_user = [''abc'']\<rparr>)"
  using
    netstring_terminator
      [where st = "\<lparr>ns_mode = DATA, ns_length = 2, ns_buffer = ''a'', ns_data = [], ns_user = []\<rparr>"
         and p = "''bc''" and cb = record_frame and c = "CHR '',''" and rest = "[]"]
    netstring_terminator
      [where st = "\<lparr>ns_mode = DATA, ns_length = 2, ns_buffer = ''a'', ns_data = [], ns_user = []\<rparr>"
         and p = "''bc''" and cb = record_frame and c = "CHR '';''" and rest = "''1''"]
    netstring_terminator
      [where st = "\<lparr>ns_mode = COMMA, ns_length = 0, ns_buffer = ''abc'', ns_data = [], ns_user = [''abc'']\<rparr>"
         and p = "[]" and cb = record_frame and c = "CHR ''x''" and rest = "[]"]
  by (simp add: record_frame_def ns_dataReceived_def ns_loop_empty)

section \<open>LineReceiver: splitting, mode switch and chunk boundaries\<close>

lemma py_split1_parts: "py_split1 s sep = Some (line, rest) \<Longrightarrow> s = line @ sep @ rest \<and> sep \<noteq> []"
proof (induction s arbitrary: line)
  case Nil
  then show ?case by simp
next
  case (Cons c s)
  show ?case
  proof (cases "prefix sep (c # s)")
    case True
    with Cons.prems have "sep \<noteq> []" "line = []" "rest = drop (length sep) (c # s)"
      by (auto split: if_splits)
    moreover from True have "c # s = sep @ drop (length sep) (c # s)"
      by (metis append_eq_conv_conj prefixE)
    ultimately show ?thesis by simp
  next
    case False
    with Cons.prems obtain l where l: "py_split1 s sep = Some (l, rest)" "line = c # l" "sep \<noteq> []"
      by (auto split: if_splits)
    from Cons.IH [OF l(1)] l show ?thesis by simp
  qed
qed

lemma py_split1_append:
  assumes "py_split1 s sep = Some (line, rest)"
  shows "py_split1 (s @ t) sep = Some (line, rest @ t)"
  using assms
proof (induction s arbitrary: line)
  case Nil
  then show ?case by simp
next
  case (Cons c s)
  show ?case
  proof (cases "prefix sep (c # s)")
    case True
    with Cons.prems have *: "sep \<noteq> []" "line = []" "rest = drop (length sep) (c # s)"
      by (auto split: if_splits)
    from True have "prefix sep (c # s @ t)"
      by (metis append_Cons prefix_prefix)
    moreover from True have "length sep \<le> length (c # s)" by (rule prefix_length_le)
    then have "drop (length sep) (c # s @ t) = drop (length sep) (c # s) @ t"
      using drop_append [of "length sep" "c # s" t] by simp
    ultimately show ?thesis using * by simp
  next
    case False
    with Cons.prems obtain l where l: "py_split1 s sep = Some (l, rest)" "line = c # l" "sep \<noteq> []"
      by (auto split: if_splits)
    from py_split1_parts [OF l(1)] have "length sep \<le> length s" by (metis length_append le_add1 le_add2 le_trans)
    with False have "\<not> prefix sep (c # s @ t)"
      by (metis append_Cons le_SucI length_Cons prefix_length_prefix prefixI prefix_order.eq_iff append_eq_conv_conj prefix_def take_all_iff)
    with Cons.IH [OF l(1)] l show ?thesis by simp
  qed
qed

lemma overlap_free_CRLF: "overlap_free CRLF"
  by (simp add: overlap_free_def CRLF_def)

lemma prefix_straddle:
  assumes "prefix d (P @ d)" "length P < length d" "P \<noteq> []"
  shows "\<not> overlap_free d"
proof -
  let ?k = "length d - length P"
  from assms(1) obtain z where z: "P @ d = d @ z" by (auto simp: prefix_def)
  have "take (length P) d = P"
    using z assms(2) by (metis append_eq_append_conv_if less_imp_le_nat)
  then have d: "d = P @ drop (length P) d" by (metis append_take_drop_id)
  have "drop (length P) (P @ d) = drop (length P) (d @ z)" using z by simp
  then have "d = drop (length P) d @ z" using assms(2) by simp
  then have "take ?k d = drop (length P) d"
    by (metis append_eq_conv_conj length_drop)
  moreover have "length d - ?k = length P" using assms(2) by simp
  ultimately have "take ?k d = drop (length d - ?k) d" by simp
  moreover have "?k \<in> set [1..<length d]" using assms(2,3) by (cases P) auto
  ultimately show ?thesis unfolding overlap_free_def list_all_iff by blast
qed

lemma py_split1_own_delimiter:
  assumes "d \<noteq> []" "overlap_free d"
  shows "\<not> sublist d P \<Longrightarrow> py_split1 (P @ d) d = Some (P, [])"
proof (induction P)
  case Nil
  from assms(1) obtain c d' where "d = c # d'" by (cases d) auto
  then show ?case by simp
next
  case (Cons c P)
  from Cons.prems have np: "\<not> prefix d (c # P)" and ns: "\<not> sublist d P"
    by (simp_all add: sublist_Cons_right)
  have "\<not> prefix d ((c # P) @ d)"
  proof
    assume p: "prefix d ((c # P) @ d)"
    show False
    proof (cases "length (c # P) < length d")
      case True
      from prefix_straddle [OF p True] assms(2) show False by simp
    next
      case False
      then have "length d \<le> length (c # P)" by simp
      with p have "prefix d (c # P)"
        by (metis prefix_length_prefix prefixI prefix_order.refl append_prefixD prefix_append not_le prefix_length_le)
      with np show False by simp
    qed
  qed
  with Cons.IH [OF ns] assms(1) show ?case by simp
qed

lemma lr_loop_raw:
  "\<not> lr_line_mode st \<Longrightarrow>
   lr_loop lh rh st =
   (if lr_buffer st \<noteq> [] then st\<lparr>lr_buffer := [], lr_user := rh (lr_buffer st) (lr_user st)\<rparr>
    else st\<lparr>lr_buffer := []\<rparr>)"
  by (simp add: lr_loop.simps [of lh rh st] Let_def)

lemma lr_loop_break:
  "lr_line_mode st \<Longrightarrow> py_split1 (lr_buffer st) (lr_delimiter st) = None \<Longrightarrow> lr_loop lh rh st = st"
  by (simp add: lr_loop.simps [of lh rh st])

lemma lr_loop_line:
  "lr_line_mode st \<Longrightarrow> py_split1 (lr_buffer st) (lr_delimiter st) = Some (line, rest) \<Longrightarrow>
   lh line (lr_user st) = (u, raw) \<Longrightarrow>
   lr_loop lh rh st =
   lr_loop lh rh (if raw then setRawMode (st\<lparr>lr_buffer := rest, lr_user := u\<rparr>)
                  else st\<lparr>lr_buffer := rest, lr_user := u\<rparr>)"
  by (simp add: lr_loop.simps [of lh rh st])

lemma lr_loop_switch:
  assumes "lr_line_mode st" "py_split1 (lr_buffer st) (lr_delimiter st) = Some (line, rest)"
    "lh line (lr_user st) = (u, True)"
  shows "lr_loop lh rh st =
         st\<lparr>lr_line_mode := False, lr_buffer := [], lr_user := (if rest \<noteq> [] then rh rest u else u)\<rparr>"
proof -
  have "lr_loop lh rh st = lr_loop lh rh (setRawMode (st\<lparr>lr_buffer := rest, lr_user := u\<rparr>))"
    using lr_loop_line [of st line rest lh u True rh] assms by simp
  also have "\<dots> = st\<lparr>lr_line_mode := False, lr_buffer := [], lr_user := (if rest \<noteq> [] then rh rest u else u)\<rparr>"
    by (simp add: lr_loop_raw setRawMode_def)
  finally show ?thesis .
qed

lemma lr_loop_append:
  "(\<And>d u. obs (rh d u) = obs u) \<Longrightarrow> lr_line_mode st \<Longrightarrow>
     (if lr_line_mode (lr_loop lh rh st)
      then lr_loop lh rh (st\<lparr>lr_buffer := lr_buffer st @ t\<rparr>) =
           lr_loop lh rh ((lr_loop lh rh st)\<lparr>lr_buffer := lr_buffer (lr_loop lh rh st) @ t\<rparr>)
      else \<not> lr_line_mode (lr_loop lh rh (st\<lparr>lr_buffer := lr_buffer st @ t\<rparr>)) \<and>
           lr_buffer (lr_loop lh rh (st\<lparr>lr_buffer := lr_buffer st @ t\<rparr>)) = [] \<and>
           lr_buffer (lr_loop lh rh st) = [] \<and>
           obs (lr_user (lr_loop lh rh (st\<lparr>lr_buffer := lr_buffer st @ t\<rparr>))) =
           obs (lr_user (lr_loop lh rh st)))"
proof (induction lh rh st rule: lr_loop.induct)
  case (1 lh rh st)
  note silent = "1.prems"(1) and lm = "1.prems"(2)
  let ?st_t = "st\<lparr>lr_buffer := lr_buffer st @ t\<rparr>"
  show ?case
  proof (cases "py_split1 (lr_buffer st) (lr_delimiter st)")
    case None
    with lm have "lr_loop lh rh st = st" by (simp add: lr_loop_break)
    with lm show ?thesis by simp
  next
    case (Some p)
    obtain line rest where p: "p = (line, rest)" by (cases p)
    obtain u raw where h: "lh line (lr_user st) = (u, raw)" by (cases "lh line (lr_user st)")
    have split: "py_split1 (lr_buffer st) (lr_delimiter st) = Some (line, rest)"
      using Some p by simp
    have split_t: "py_split1 (lr_buffer ?st_t) (lr_delimiter ?st_t) = Some (line, rest @ t)"
      using py_split1_append [OF split] by simp
    show ?thesis
    proof (cases raw)
      case True
      have a: "lr_loop lh rh st =
            st\<lparr>lr_line_mode := False, lr_buffer := [], lr_user := (if rest \<noteq> [] then rh rest u else u)\<rparr>"
        using lm split h True by (intro lr_loop_switch) simp_all
      have b: "lr_loop lh rh ?st_t =
            ?st_t\<lparr>lr_line_mode := False, lr_buffer := [],
                  lr_user := (if rest @ t \<noteq> [] then rh (rest @ t) u else u)\<rparr>"
        using lm split_t h True by (intro lr_loop_switch) simp_all
      show ?thesis unfolding a b by (simp add: silent)
    next
      case False
      let ?s' = "st\<lparr>lr_buffer := rest, lr_user := u\<rparr>"
      have a: "lr_loop lh rh st = lr_loop lh rh ?s'"
        using lr_loop_line [of st line rest lh u raw rh] lm split h False by simp
      have eq: "?s'\<lparr>lr_buffer := lr_buffer ?s' @ t\<rparr> = st\<lparr>lr_buffer := rest @ t, lr_user := u\<rparr>"
        by simp
      have b: "lr_loop lh rh ?st_t = lr_loop lh rh (?s'\<lparr>lr_buffer := lr_buffer ?s' @ t\<rparr>)"
        unfolding eq
        using lr_loop_line [of ?st_t line "rest @ t" lh u raw rh] lm split_t h False by simp
      have m: "lr_line_mode ?s'" using lm by simp
      have h': "lh line (lr_user st) = (u, False)" using h False by simp
      have IH: "(if lr_line_mode (lr_loop lh rh ?s')
        then lr_loop lh rh (?s'\<lparr>lr_buffer := lr_buffer ?s' @ t\<rparr>) =
             lr_loop lh rh ((lr_loop lh rh ?s')\<lparr>lr_buffer := lr_buffer (lr_loop lh rh ?s') @ t\<rparr>)
        else \<not> lr_line_mode (lr_loop lh rh (?s'\<lparr>lr_buffer := lr_buffer ?s' @ t\<rparr>)) \<and>
             lr_buffer (lr_loop lh rh (?s'\<lparr>lr_buffer := lr_buffer ?s' @ t\<rparr>)) = [] \<and>
             lr_buffer (lr_loop lh rh ?s') = [] \<and>
             obs (lr_user (lr_loop lh rh (?s'\<lparr>lr_buffer := lr_buffer ?s' @ t\<rparr>))) =
             obs (lr_user (lr_loop lh rh ?s')))"
        using "1.IH" [OF lm split refl h' [symmetric] silent, unfolded if_False, OF m] .
      show ?thesis unfolding a b using IH .
    qed
  qed
qed

lemma lr_loop_idem: "lr_loop lh rh (lr_loop lh rh st) = lr_loop lh rh st"
proof (induction lh rh st rule: lr_loop.induct)
  case (1 lh rh st)
  show ?case
  proof (cases "lr_line_mode st")
    case False
    then show ?thesis by (simp add: lr_loop_raw)
  next
    case lm: True
    show ?thesis
    proof (cases "py_split1 (lr_buffer st) (lr_delimiter st)")
      case None
      with lm show ?thesis by (simp add: lr_loop_break)
    next
      case (Some p)
      obtain line rest where p: "p = (line, rest)" by (cases p)
      obtain u raw where h: "lh line (lr_user st) = (u, raw)" by (cases "lh line (lr_user st)")
      have split: "py_split1 (lr_buffer st) (lr_delimiter st) = Some (line, rest)"
        using Some p by simp
      show ?thesis
        unfolding lr_loop_line [of st line rest lh u raw rh, OF lm split h]
        by (rule "1.IH" [OF lm split refl h [symmetric]])
    qed
  qed
qed

lemma lr_raw_stays:
  assumes "\<And>d u. obs (rh d u) = obs u" "\<not> lr_line_mode st"
  shows "\<not> lr_line_mode (lr_dataReceived lh rh st d) \<and> lr_buffer (lr_dataReceived lh rh st d) = [] \<and>
         obs (lr_user (lr_dataReceived lh rh st d)) = obs (lr_user st)"
  using assms by (simp add: lr_dataReceived_def lr_loop_raw)

lemma lr_two_chunks:
  assumes silent: "\<And>d u. obs (rh d u) = obs u"
  shows "obs (lr_user (lr_dataReceived lh rh (lr_dataReceived lh rh st a) b)) =
         obs (lr_user (lr_dataReceived lh rh st (a @ b)))"
proof (cases "lr_line_mode st")
  case False
  show ?thesis
    using lr_raw_stays [of obs rh st lh "a @ b", OF silent False]
      lr_raw_stays [of obs rh st lh a, OF silent False]
      lr_raw_stays [of obs rh "lr_dataReceived lh rh st a" lh b, OF silent]
    by simp
next
  case True
  let ?sa = "st\<lparr>lr_buffer := lr_buffer st @ a\<rparr>"
  let ?r = "lr_loop lh rh ?sa"
  have whole: "lr_dataReceived lh rh st (a @ b) = lr_loop lh rh (?sa\<lparr>lr_buffer := lr_buffer ?sa @ b\<rparr>)"
    by (simp add: lr_dataReceived_def)
  have first: "lr_dataReceived lh rh st a = ?r"
    by (simp add: lr_dataReceived_def)
  have app: "if lr_line_mode ?r
      then lr_loop lh rh (?sa\<lparr>lr_buffer := lr_buffer ?sa @ b\<rparr>) =
           lr_loop lh rh (?r\<lparr>lr_buffer := lr_buffer ?r @ b\<rparr>)
      else \<not> lr_line_mode (lr_loop lh rh (?sa\<lparr>lr_buffer := lr_buffer ?sa @ b\<rparr>)) \<and>
           lr_buffer (lr_loop lh rh (?sa\<lparr>lr_buffer := lr_buffer ?sa @ b\<rparr>)) = [] \<and>
           lr_buffer ?r = [] \<and>
           obs (lr_user (lr_loop lh rh (?sa\<lparr>lr_buffer := lr_buffer ?sa @ b\<rparr>))) = obs (lr_user ?r)"
    using True by (intro lr_loop_append [where obs = obs and rh = rh, OF silent]) simp
  show ?thesis
  proof (cases "lr_line_mode ?r")
    case True
    with app have "lr_loop lh rh (?sa\<lparr>lr_buffer := lr_buffer ?sa @ b\<rparr>) =
           lr_loop lh rh (?r\<lparr>lr_buffer := lr_buffer ?r @ b\<rparr>)" by simp
    then show ?thesis unfolding whole first by (simp add: lr_dataReceived_def)
  next
    case False
    with app have "obs (lr_user (lr_loop lh rh (?sa\<lparr>lr_buffer := lr_buffer ?sa @ b\<rparr>))) = obs (lr_user ?r)"
      by simp
    moreover have "obs (lr_user (lr_dataReceived lh rh ?r b)) = obs (lr_user ?r)"
      using lr_raw_stays [of obs rh ?r lh b, OF silent False] by simp
    ultimately show ?thesis unfolding whole first by simp
  qed
qed

lemma lr_feed_concat:
  assumes silent: "\<And>d u. obs (rh d u) = obs u"
  shows "lr_loop lh rh st = st \<Longrightarrow>
         obs (lr_user (lr_feed lh rh st chunks)) = obs (lr_user (lr_dataReceived lh rh st (concat chunks)))"
proof (induction chunks arbitrary: st)
  case Nil
  then show ?case by (simp add: lr_feed_def lr_dataReceived_def)
next
  case (Cons c cs)
  let ?s1 = "lr_dataReceived lh rh st c"
  have "lr_loop lh rh ?s1 = ?s1" by (simp add: lr_dataReceived_def lr_loop_idem)
  then have "obs (lr_user (lr_feed lh rh ?s1 cs)) = obs (lr_user (lr_dataReceived lh rh ?s1 (concat cs)))"
    by (rule Cons.IH)
  also have "\<dots> = obs (lr_user (lr_dataReceived lh rh st (c @ concat cs)))"
    by (rule lr_two_chunks [where obs = obs and rh = rh, OF silent])
  finally show ?case by (simp add: lr_feed_def)
qed

lemma lines_of_append [simp]: "lines_of (evs @ evs') = lines_of evs @ lines_of evs'"
  by (induction evs rule: lines_of.induct) simp_all

lemma lr_fresh_quiet: "lr_loop lh rh ((lr_fresh u)\<lparr>lr_delimiter := d\<rparr>) = (lr_fresh u)\<lparr>lr_delimiter := d\<rparr>"
  by (simp add: lr_loop_break lr_fresh_def)

lemma lr_roundtrip:
  assumes "d \<noteq> []" "overlap_free d" "\<not> sublist d P"
  shows "lr_dataReceived lh rh ((lr_fresh u)\<lparr>lr_delimiter := d\<rparr>)
           (sendLine ((lr_fresh u)\<lparr>lr_delimiter := d\<rparr>) P) =
         \<lparr>lr_line_mode = \<not> snd (lh P u), lr_buffer = [], lr_delimiter = d, lr_user = fst (lh P u)\<rparr>"
proof -
  let ?st = "\<lparr>lr_line_mode = True, lr_buffer = P @ d, lr_delimiter = d, lr_user = u\<rparr>"
  obtain u' raw where h: "lh P u = (u', raw)" by (cases "lh P u")
  have "lr_loop lh rh ?st =
        lr_loop lh rh (if raw then setRawMode (?st\<lparr>lr_buffer := [], lr_user := u'\<rparr>)
                       else ?st\<lparr>lr_buffer := [], lr_user := u'\<rparr>)"
    using py_split1_own_delimiter [OF assms] h by (intro lr_loop_line) simp_all
  also have "\<dots> = \<lparr>lr_line_mode = \<not> raw, lr_buffer = [], lr_delimiter = d, lr_user = u'\<rparr>"
    by (cases raw) (simp_all add: lr_loop_raw lr_loop_break setRawMode_def)
  finally show ?thesis
    by (simp add: lr_dataReceived_def lr_fresh_def sendLine_def h)
qed

lemma lr_roundtrip_CRLF:
  assumes "\<not> sublist CRLF P"
  shows "lr_dataReceived lh rh (lr_fresh u) (sendLine (lr_fresh u) P) =
         \<lparr>lr_line_mode = \<not> snd (lh P u), lr_buffer = [], lr_delimiter = CRLF, lr_user = fst (lh P u)\<rparr>"
proof -
  have "(lr_fresh u)\<lparr>lr_delimiter := CRLF\<rparr> = lr_fresh u" by (simp add: lr_fresh_def)
  moreover have "CRLF \<noteq> []" by (simp add: CRLF_def)
  ultimately show ?thesis
    using lr_roundtrip [of CRLF P lh rh u] overlap_free_CRLF assms by simp
qed

section \<open>Int32StringReceiver: headers, frames and chunk boundaries\<close>

lemma i32_loop_short: "length (i32_recvd st) \<le> 3 \<Longrightarrow> i32_loop cb st = Some st"
  by (subst i32_loop.simps) simp

lemma i32_loop_wait:
  "length (i32_recvd st) > 3 \<Longrightarrow>
   int (length (i32_recvd st)) < struct_unpack_i (take 4 (i32_recvd st)) + 4 \<Longrightarrow>
   i32_loop cb st = Some st"
  by (subst i32_loop.simps) simp

lemma i32_loop_frame:
  "length (i32_recvd st) > 3 \<Longrightarrow>
   \<not> int (length (i32_recvd st)) < struct_unpack_i (take 4 (i32_recvd st)) + 4 \<Longrightarrow>
   i32_loop cb st =
   i32_loop cb (st\<lparr>i32_recvd := slice_from (i32_recvd st) (struct_unpack_i (take 4 (i32_recvd st)) + 4),
                   i32_user := cb (slice (i32_recvd st) 4 (struct_unpack_i (take 4 (i32_recvd st)) + 4))
                                 (i32_user st)\<rparr>)"
  by (subst i32_loop.simps) (simp add: Let_def)

lemma slice_from_nonneg: "0 \<le> i \<Longrightarrow> slice_from s i = drop (nat i) s"
  by (simp add: slice_from_def py_index_def min_def)

lemma slice_nonneg: "0 \<le> n \<Longrightarrow> slice s 4 (n + 4) = take (nat n) (drop 4 s)"
proof -
  assume n: "0 \<le> n"
  have "min (nat (n + 4)) (length s) - min 4 (length s) = min (nat n) (length s - 4)"
    using n by (simp add: min_def nat_add_distrib) 
  then show ?thesis
    using n by (simp add: slice_def py_index_def take_drop min_def split: if_splits)
qed

lemma i32_loop_frame_nonneg:
  assumes "length (i32_recvd st) > 3" "0 \<le> struct_unpack_i (take 4 (i32_recvd st))"
    "struct_unpack_i (take 4 (i32_recvd st)) + 4 \<le> int (length (i32_recvd st))"
  shows "i32_loop cb st =
     i32_loop cb (st\<lparr>i32_recvd := drop (nat (struct_unpack_i (take 4 (i32_recvd st))) + 4) (i32_recvd st),
                     i32_user := cb (take (nat (struct_unpack_i (take 4 (i32_recvd st)))) (drop 4 (i32_recvd st)))
                                   (i32_user st)\<rparr>)"
proof -
  have "nat (struct_unpack_i (take 4 (i32_recvd st)) + 4) = nat (struct_unpack_i (take 4 (i32_recvd st))) + 4"
    using assms(2) by (simp add: nat_add_distrib)
  then show ?thesis
    using assms i32_loop_frame [of st cb] by (simp add: slice_from_nonneg slice_nonneg)
qed

lemma i32_loop_append:
  "headers_nonnegative (i32_recvd st @ b) \<Longrightarrow>
   \<exists>st1. i32_loop cb st = Some st1 \<and> i32_loop cb st1 = Some st1 \<and>
         headers_nonnegative (i32_recvd st1 @ b) \<and>
         i32_loop cb (st1\<lparr>i32_recvd := i32_recvd st1 @ b\<rparr>) =
         i32_loop cb (st\<lparr>i32_recvd := i32_recvd st @ b\<rparr>)"
proof (induction "length (i32_recvd st)" arbitrary: st rule: less_induct)
  case less
  let ?x = "i32_recvd st"
  let ?n = "struct_unpack_i (take 4 ?x)"
  show ?case
  proof (cases "length ?x \<le> 3")
    case True
    then have "i32_loop cb st = Some st" by (rule i32_loop_short)
    with less.prems show ?thesis by auto
  next
    case False
    then have long: "length ?x > 3" by simp
    then have hdr: "take 4 (?x @ b) = take 4 ?x" by simp
    from less.prems long have nonneg: "0 \<le> ?n"
      by (subst (asm) headers_nonnegative.simps) (simp add: hdr split: if_splits)
    show ?thesis
    proof (cases "int (length ?x) < ?n + 4")
      case True
      with long have "i32_loop cb st = Some st" by (rule i32_loop_wait)
      with less.prems show ?thesis by auto
    next
      case False
      then have enough: "?n + 4 \<le> int (length ?x)" by simp
      then have k: "nat ?n + 4 \<le> length ?x" using nonneg by linarith
      let ?st' = "st\<lparr>i32_recvd := drop (nat ?n + 4) ?x,
                      i32_user := cb (take (nat ?n) (drop 4 ?x)) (i32_user st)\<rparr>"
      have step: "i32_loop cb st = i32_loop cb ?st'"
        using long nonneg enough by (rule i32_loop_frame_nonneg)
      have "i32_loop cb (st\<lparr>i32_recvd := ?x @ b\<rparr>) =
            i32_loop cb (st\<lparr>i32_recvd := drop (nat ?n + 4) (?x @ b),
                            i32_user := cb (take (nat ?n) (drop 4 (?x @ b))) (i32_user st)\<rparr>)"
        using i32_loop_frame_nonneg [of "st\<lparr>i32_recvd := ?x @ b\<rparr>" cb] long nonneg enough
        by (simp add: hdr)
      also have "st\<lparr>i32_recvd := drop (nat ?n + 4) (?x @ b),
                    i32_user := cb (take (nat ?n) (drop 4 (?x @ b))) (i32_user st)\<rparr> =
                 ?st'\<lparr>i32_recvd := i32_recvd ?st' @ b\<rparr>"
        using k by simp
      finally have step_b: "i32_loop cb (st\<lparr>i32_recvd := ?x @ b\<rparr>) =
                            i32_loop cb (?st'\<lparr>i32_recvd := i32_recvd ?st' @ b\<rparr>)" .
      have "headers_nonnegative (drop (nat (?n + 4)) (?x @ b))"
        using less.prems long nonneg enough
        by (subst (asm) headers_nonnegative.simps) (simp add: hdr split: if_splits)
      then have hn: "headers_nonnegative (i32_recvd ?st' @ b)"
        using k nonneg by (simp add: nat_add_distrib)
      have shorter: "length (i32_recvd ?st') < length ?x" using long by simp
      from less.hyps [OF shorter hn] obtain st1 where
        "i32_loop cb ?st' = Some st1" "i32_loop cb st1 = Some st1"
        "headers_nonnegative (i32_recvd st1 @ b)"
        "i32_loop cb (st1\<lparr>i32_recvd := i32_recvd st1 @ b\<rparr>) =
         i32_loop cb (?st'\<lparr>i32_recvd := i32_recvd ?st' @ b\<rparr>)"
        by blast
      then show ?thesis unfolding step step_b by blast
    qed
  qed
qed

lemma i32_feed_Cons:
  "i32_feed cb st (c # cs) =
   (case i32_dataReceived cb st c of None \<Rightarrow> None | Some s \<Rightarrow> i32_feed cb s cs)"
proof -
  have stuck: "foldl (\<lambda>r c. case r of None \<Rightarrow> None | Some s \<Rightarrow> i32_dataReceived cb s c) None cs = None"
    by (induction cs) simp_all
  show ?thesis
    by (cases "i32_dataReceived cb st c") (simp_all add: i32_feed_def stuck)
qed

lemma i32_feed_concat:
  "headers_nonnegative (i32_recvd st @ concat chunks) \<Longrightarrow> i32_loop cb st = Some st \<Longrightarrow>
   \<exists>st'. i32_feed cb st chunks = Some st' \<and> i32_dataReceived cb st (concat chunks) = Some st'"
proof (induction chunks arbitrary: st)
  case Nil
  then show ?case by (simp add: i32_feed_def i32_dataReceived_def)
next
  case (Cons c cs)
  let ?sc = "st\<lparr>i32_recvd := i32_recvd st @ c\<rparr>"
  from Cons.prems(1) have "headers_nonnegative (i32_recvd ?sc @ concat cs)" by simp
  from i32_loop_append [OF this, of cb] obtain st1 where st1:
    "i32_loop cb ?sc = Some st1" "i32_loop cb st1 = Some st1"
    "headers_nonnegative (i32_recvd st1 @ concat cs)"
    "i32_loop cb (st1\<lparr>i32_recvd := i32_recvd st1 @ concat cs\<rparr>) =
     i32_loop cb (?sc\<lparr>i32_recvd := i32_recvd ?sc @ concat cs\<rparr>)"
    by blast
  from Cons.IH [OF st1(3) st1(2)] obtain st' where
    st': "i32_feed cb st1 cs = Some st'" "i32_dataReceived cb st1 (concat cs) = Some st'"
    by blast
  have "i32_feed cb st (c # cs) = Some st'"
    using st1(1) st'(1) by (simp add: i32_feed_Cons i32_dataReceived_def)
  moreover have "i32_dataReceived cb st (concat (c # cs)) = Some st'"
    using st1(4) st'(2) by (simp add: i32_dataReceived_def)
  ultimately show ?case by blast
qed

lemma be_nat_4: "be_nat [a, b, c, d] =
   256 * (256 * (256 * of_char a + of_char b) + of_char c) + of_char d"
  by (simp add: be_nat_def)

lemma be_bytes_value:
  fixes u :: nat
  assumes "u < 2 ^ 32"
  shows "be_nat [char_of (u div 2 ^ 24), char_of (u div 2 ^ 16), char_of (u div 2 ^ 8), char_of u] = u"
proof -
  define a where "a = u div 256"
  define b where "b = a div 256"
  define c where "c = b div 256"
  have d16: "u div 65536 = b" unfolding b_def a_def by (simp add: div_mult2_eq [symmetric])
  have d24: "u div 16777216 = c" unfolding c_def b_def a_def by (simp add: div_mult2_eq [symmetric])
  have "c < 256" using assms unfolding d24 [symmetric] by simp
  then have c: "c mod 256 = c" by simp
  have "u = 256 * a + u mod 256" unfolding a_def by simp
  moreover have "a = 256 * b + a mod 256" unfolding b_def by simp
  moreover have "b = 256 * c + b mod 256" unfolding c_def by simp
  ultimately have "256 * (256 * (256 * c + b mod 256) + a mod 256) + u mod 256 = u"
    by simp
  then show ?thesis by (simp add: be_nat_4 d16 d24 c a_def [symmetric])
qed

lemma struct_pack_unpack:
  assumes "0 \<le> n" "n < 2 ^ 31"
  shows "\<exists>h. struct_pack_i n = Inr h \<and> length h = 4 \<and> be_nat h = nat n \<and> struct_unpack_i h = n"
proof -
  let ?u = "nat (n mod 2 ^ 32)"
  have u: "?u = nat n" using assms by simp
  have lt: "nat n < 2 ^ 32" using assms by (simp add: nat_less_iff)
  have lt': "nat n < 2 ^ 31" using assms by (simp add: nat_less_iff)
  let ?h = "[char_of (nat n div 2 ^ 24), char_of (nat n div 2 ^ 16), char_of (nat n div 2 ^ 8), char_of (nat n)] :: bytes"
  have "struct_pack_i n = Inr ?h"
    using assms by (simp add: struct_pack_i_def Let_def)
  moreover have b: "be_nat ?h = nat n" using lt by (rule be_bytes_value)
  moreover have "struct_unpack_i ?h = n"
    unfolding struct_unpack_i_def b using lt' assms(1) by simp
  ultimately show ?thesis by simp
qed

lemma i32_waits:
  assumes "length hdr = 4" "int (length rest) < struct_unpack_i hdr"
  shows "i32_loop cb (st\<lparr>i32_recvd := hdr @ rest\<rparr>) = Some (st\<lparr>i32_recvd := hdr @ rest\<rparr>)"
  using assms by (intro i32_loop_wait) simp_all

lemma i32_delivers:
  assumes "length hdr = 4" "0 \<le> struct_unpack_i hdr" "struct_unpack_i hdr \<le> int (length rest)"
  shows "i32_loop cb (st\<lparr>i32_recvd := hdr @ rest\<rparr>) =
         i32_loop cb (st\<lparr>i32_recvd := drop (nat (struct_unpack_i hdr)) rest,
                         i32_user := cb (take (nat (struct_unpack_i hdr)) rest) (i32_user st)\<rparr>)"
  using i32_loop_frame_nonneg [of "st\<lparr>i32_recvd := hdr @ rest\<rparr>" cb] assms by simp

lemma be_nat_4_bound: "length hdr = 4 \<Longrightarrow> be_nat hdr < 2 ^ 32"
proof -
  assume "length hdr = 4"
  then obtain a b c d where h: "hdr = [a, b, c, d]"
    by (auto simp: length_Suc_conv numeral_eq_Suc)
  define x y z w where "x = (of_char a :: nat)" and "y = (of_char b :: nat)"
    and "z = (of_char c :: nat)" and "w = (of_char d :: nat)"
  have "x < 256" "y < 256" "z < 256" "w < 256"
    by (simp_all add: x_def y_def z_def w_def)
  then have "256 * (256 * (256 * x + y) + z) + w < 2 ^ 32" by simp
  then show ?thesis unfolding h be_nat_4 x_def y_def z_def w_def .
qed

lemma i32_roundtrip:
  assumes "length P < 2 ^ 31"
  shows "\<exists>wire. i32_sendString P = Inr wire \<and>
           i32_dataReceived cb (i32_fresh u) wire = Some \<lparr>i32_recvd = [], i32_user = cb P u\<rparr>"
proof -
  have "0 \<le> int (length P)" "int (length P) < 2 ^ 31" using assms by simp_all
  from struct_pack_unpack [OF this] obtain h where
    h: "struct_pack_i (int (length P)) = Inr h" "length h = 4" "struct_unpack_i h = int (length P)"
    by blast
  have "i32_loop cb ((i32_fresh u)\<lparr>i32_recvd := h @ P\<rparr>) =
        i32_loop cb ((i32_fresh u)\<lparr>i32_recvd := drop (nat (struct_unpack_i h)) P,
                        i32_user := cb (take (nat (struct_unpack_i h)) P) (i32_user (i32_fresh u))\<rparr>)"
    using h by (intro i32_delivers) simp_all
  also have "\<dots> = Some \<lparr>i32_recvd = [], i32_user = cb P u\<rparr>"
    by (simp add: h i32_fresh_def i32_loop_short)
  finally show ?thesis
    by (simp add: i32_sendString_def h i32_dataReceived_def i32_fresh_def)
qed

section \<open>LineReceiver: switching to raw mode inside a drain\<close>

text \<open>
  Claim C4. If the \<open>lineReceived\<close> callback for a line switches the receiver to raw
  mode (\<open>setRawMode\<close>), line splitting stops at once: no further line is split off, and
  the whole rest of the buffer after that line's delimiter, if it is not empty, goes to
  \<open>rawDataReceived\<close> in one call before \<open>dataReceived\<close> returns; the buffer is then
  empty. This holds at every iteration of the loop (first conjunct, on the loop at any
  state in line mode) and so for the first line of a \<open>dataReceived\<close> call (second
  conjunct). Fed \<open>"cmd\r\nBINARYDATA"\<close> in one call, with a handler that switches on the
  line \<open>"cmd"\<close>, a fresh receiver calls \<open>lineReceived("cmd")\<close> and then
  \<open>rawDataReceived("BINARYDATA")\<close>; a delimiter inside the rest is not split any more.
\<close>

theorem line_raw_mode_switch:
  "(lr_line_mode st \<and> py_split1 (lr_buffer st) (lr_delimiter st) = Some (line, rest) \<and>
    lineReceived line (lr_user st) = (u, True) \<longrightarrow>
      lr_loop lineReceived rawDataReceived st =
      st\<lparr>lr_line_mode := False, lr_buffer := [],
         lr_user := (if rest \<noteq> [] then rawDataReceived rest u else u)\<rparr>) \<and>
   (lr_line_mode st \<and> py_split1 (lr_buffer st @ data) (lr_delimiter st) = Some (line, rest) \<and>
    lineReceived line (lr_user st) = (u, True) \<longrightarrow>
      lr_dataReceived lineReceived rawDataReceived st data =
      st\<lparr>lr_line_mode := False, lr_buffer := [],
         lr_user := (if rest \<noteq> [] then rawDataReceived rest u else u)\<rparr>) \<and>
   lr_dataReceived (record_line (\<lambda>evs l. l = ''cmd'')) record_raw (lr_fresh [])
       (''cmd'' @ CRLF @ ''BINARYDATA'') =
     \<lparr>lr_line_mode = False, lr_buffer = [], lr_delimiter = CRLF,
      lr_user = [Line ''cmd'', Raw ''BINARYDATA'']\<rparr> \<and>
   lr_dataReceived (record_line (\<lambda>evs l. l = ''cmd'')) record_raw (lr_fresh [])
       (''a'' @ CRLF @ ''cmd'' @ CRLF @ ''BIN'' @ CRLF @ ''X'') =
     \<lparr>lr_line_mode = False, lr_buffer = [], lr_delimiter = CRLF,
      lr_user = [Line ''a'', Line ''cmd'', Raw (''BIN'' @ CRLF @ ''X'')]\<rparr>"
proof (intro conjI impI)
  assume "lr_line_mode st \<and> py_split1 (lr_buffer st) (lr_delimiter st) = Some (line, rest) \<and>
    lineReceived line (lr_user st) = (u, True)"
  then show "lr_loop lineReceived rawDataReceived st =
      st\<lparr>lr_line_mode := False, lr_buffer := [],
         lr_user := (if rest \<noteq> [] then rawDataReceived rest u else u)\<rparr>"
    using lr_loop_switch [of st line rest lineReceived u rawDataReceived] by simp
next
  assume "lr_line_mode st \<and> py_split1 (lr_buffer st @ data) (lr_delimiter st) = Some (line, rest) \<and>
    lineReceived line (lr_user st) = (u, True)"
  then show "lr_dataReceived lineReceived rawDataReceived st data =
      st\<lparr>lr_line_mode := False, lr_buffer := [],
         lr_user := (if rest \<noteq> [] then rawDataReceived rest u else u)\<rparr>"
    using lr_loop_switch [of "st\<lparr>lr_buffer := lr_buffer st @ data\<rparr>" line rest lineReceived u
        rawDataReceived]
    by (simp add: lr_dataReceived_def)
next
  show "lr_dataReceived (record_line (\<lambda>evs l. l = ''cmd'')) record_raw (lr_fresh [])
       (''cmd'' @ CRLF @ ''BINARYDATA'') =
     \<lparr>lr_line_mode = False, lr_buffer = [], lr_delimiter = CRLF,
      lr_user = [Line ''cmd'', Raw ''BINARYDATA'']\<rparr>"
    by (simp add: lr_dataReceived_def lr_fresh_def lr_loop.simps CRLF_def record_line_def
        record_raw_def setRawMode_def)
next
  show "lr_dataReceived (record_line (\<lambda>evs l. l = ''cmd'')) record_raw (lr_fresh [])
       (''a'' @ CRLF @ ''cmd'' @ CRLF @ ''BIN'' @ CRLF @ ''X'') =
     \<lparr>lr_line_mode = False, lr_buffer = [], lr_delimiter = CRLF,
      lr_user = [Line ''a'', Line ''cmd'', Raw (''BIN'' @ CRLF @ ''X'')]\<rparr>"
    by (simp add: lr_dataReceived_def lr_fresh_def lr_loop.simps CRLF_def record_line_def
        record_raw_def setRawMode_def)
qed

theorem line_raw_mode_switch_witness:
  "lr_line_mode (lr_fresh ([] :: event list)) \<and>
   py_split1 (''go'' @ CRLF @ ''RAW'') CRLF = Some (''go'', ''RAW'') \<and>
   record_line (\<lambda>evs l. l = ''go'') ''go'' [] = ([Line ''go''], True) \<and>
   lr_dataReceived (record_line (\<lambda>evs l. l = ''go'')) record_raw (lr_fresh []) (''go'' @ CRLF @ ''RAW'') =
     \<lparr>lr_line_mode = False, lr_buffer = [], lr_delimiter = CRLF,
      lr_user = [Line ''go'', Raw ''RAW'']\<rparr>"
  using line_raw_mode_switch
    [where st = "lr_fresh []" and data = "''go'' @ CRLF @ ''RAW''" and line = "''go''"
       and rest = "''RAW''" and lineReceived = "record_line (\<lambda>evs l. l = ''go'')"
       and u = "[Line ''go'']" and rawDataReceived = record_raw]
  by (simp add: lr_fresh_def CRLF_def record_line_def record_raw_def)

section \<open>StatefulStringProtocol: a state without a phase function\<close>

lemma ssp_miss:
  "attrs (''proto_'' @ ssp_state st) = None \<Longrightarrow>
   stringReceived attrs frame st =
   st\<lparr>ssp_printed := ssp_printed st @ [''callback '' @ ssp_state st @ '' not found'']\<rparr>"
  by (simp add: stringReceived_def)

lemma ssp_miss_all:
  "attrs (''proto_'' @ ssp_state st) = None \<Longrightarrow>
   foldl (\<lambda>s f. stringReceived attrs f s) st frames =
   st\<lparr>ssp_printed := ssp_printed st @
        replicate (length frames) (''callback '' @ ssp_state st @ '' not found'')\<rparr>"
proof (induction frames arbitrary: st)
  case Nil
  show ?case by simp
next
  case (Cons f fs)
  let ?st' = "st\<lparr>ssp_printed := ssp_printed st @ [''callback '' @ ssp_state st @ '' not found'']\<rparr>"
  have "attrs (''proto_'' @ ssp_state ?st') = None" using Cons.prems by simp
  from Cons.IH [OF this] Cons.prems show ?case
    by (simp add: ssp_miss replicate_app_Cons_same)
qed

text \<open>
  Claim C9. When the object has no attribute whose name is \<open>proto_\<close> followed by the
  current state, \<open>stringReceived\<close> prints \<open>callback\<close>, the state and \<open>not found\<close>, and
  does nothing else: no phase function runs (the application state is unchanged), the
  state is unchanged and the connection is not closed. The miss is recoverable: every further frame is dispatched
  against the same state (one printed line per frame), and a decoder whose
  \<open>stringReceived\<close> is this method goes on decoding: fed two frames in one chunk, a
  NetstringReceiver and an Int32StringReceiver deliver both, raise nothing and end with
  nothing unconsumed. (In this model a callback acts on the application state only, so it
  cannot touch the fields of the decoder.)
\<close>

theorem stateful_unknown_state:
  "(attrs (''proto_'' @ ssp_state st) = None \<longrightarrow>
      stringReceived attrs frame st =
        st\<lparr>ssp_printed := ssp_printed st @ [''callback '' @ ssp_state st @ '' not found'']\<rparr> \<and>
      foldl (\<lambda>s f. stringReceived attrs f s) st frames =
        st\<lparr>ssp_printed := ssp_printed st @
             replicate (length frames) (''callback '' @ ssp_state st @ '' not found'')\<rparr>) \<and>
   ns_dataReceived (stringReceived Map.empty) (ns_fresh (ssp_fresh u)) ''1:a,1:b,'' =
     Inr \<lparr>ns_mode = LENGTH, ns_length = 0, ns_buffer = ''b'', ns_data = [],
          ns_user = \<lparr>ssp_state = ''init'',
                     ssp_printed = [''callback init not found'', ''callback init not found''],
                     ssp_lost = False, ssp_user = u\<rparr>\<rparr> \<and>
   i32_dataReceived (stringReceived Map.empty) (i32_fresh (ssp_fresh u))
       [CHR 0x00, CHR 0x00, CHR 0x00, CHR 0x01, CHR ''a'', CHR 0x00, CHR 0x00, CHR 0x00, CHR 0x01, CHR ''b''] =
     Some \<lparr>i32_recvd = [],
           i32_user = \<lparr>ssp_state = ''init'',
                     ssp_printed = [''callback init not found'', ''callback init not found''],
                     ssp_lost = False, ssp_user = u\<rparr>\<rparr>"
proof (intro conjI impI)
  assume "attrs (''proto_'' @ ssp_state st) = None"
  then show "stringReceived attrs frame st =
        st\<lparr>ssp_printed := ssp_printed st @ [''callback '' @ ssp_state st @ '' not found'']\<rparr>"
    by (rule ssp_miss)
next
  assume "attrs (''proto_'' @ ssp_state st) = None"
  then show "foldl (\<lambda>s f. stringReceived attrs f s) st frames =
        st\<lparr>ssp_printed := ssp_printed st @
             replicate (length frames) (''callback '' @ ssp_state st @ '' not found'')\<rparr>"
    by (rule ssp_miss_all)
next
  show "ns_dataReceived (stringReceived Map.empty) (ns_fresh (ssp_fresh u)) ''1:a,1:b,'' =
     Inr \<lparr>ns_mode = LENGTH, ns_length = 0, ns_buffer = ''b'', ns_data = [],
          ns_user = \<lparr>ssp_state = ''init'',
                     ssp_printed = [''callback init not found'', ''callback init not found''],
                     ssp_lost = False, ssp_user = u\<rparr>\<rparr>"
    by (simp add: ns_dataReceived_def ns_fresh_def ns_loop.simps doLength_def doData_def
        doComma_def NUMBER_match_def isdigit_def py_int_def digit_val_def Let_def
        stringReceived_def ssp_fresh_def)
next
  show "i32_dataReceived (stringReceived Map.empty) (i32_fresh (ssp_fresh u))
       [CHR 0x00, CHR 0x00, CHR 0x00, CHR 0x01, CHR ''a'', CHR 0x00, CHR 0x00, CHR 0x00, CHR 0x01, CHR ''b''] =
     Some \<lparr>i32_recvd = [],
           i32_user = \<lparr>ssp_state = ''init'',
                     ssp_printed = [''callback init not found'', ''callback init not found''],
                     ssp_lost = False, ssp_user = u\<rparr>\<rparr>"
    by (simp add: i32_dataReceived_def i32_fresh_def i32_loop.simps struct_unpack_i_def be_nat_def
        slice_def slice_from_def py_index_def Let_def stringReceived_def ssp_fresh_def)
qed

theorem stateful_unknown_state_witness:
  "[''proto_done'' \<mapsto> (\<lambda>f (n :: nat). (''done'', Suc n))] (''proto_'' @ ssp_state (ssp_fresh (0 :: nat))) = None \<and>
   stringReceived [''proto_done'' \<mapsto> (\<lambda>f n. (''done'', Suc n))] ''x'' (ssp_fresh (0 :: nat)) =
     \<lparr>ssp_state = ''init'', ssp_printed = [''callback init not found''], ssp_lost = False, ssp_user = 0\<rparr> \<and>
   foldl (\<lambda>s f. stringReceived [''proto_done'' \<mapsto> (\<lambda>f n. (''done'', Suc n))] f s) (ssp_fresh (0 :: nat))
       [''x'', ''y'', ''z''] =
     \<lparr>ssp_state = ''init'',
      ssp_printed = [''callback init not found'', ''callback init not found'', ''callback init not found''],
      ssp_lost = False, ssp_user = 0\<rparr>"
  using stateful_unknown_state
    [where attrs = "[''proto_done'' \<mapsto> (\<lambda>f (n :: nat). (''done'', Suc n))]"
       and st = "ssp_fresh (0 :: nat)" and frame = "''x''" and frames = "[''x'', ''y'', ''z'']"
       and u = "0 :: nat"]
  by (simp add: ssp_fresh_def stringReceived_def)

section \<open>Int32StringReceiver: the length header\<close>

text \<open>
  The loop need not return. For the header \<open>FF FF FF FC\<close>, read as \<open>-4\<close>, the test
  \<open>len(self.recvd) < length+4\<close> fails, \<open>recvd[4:0]\<close> is empty and \<open>recvd[0:]\<close> is the
  whole buffer: every iteration delivers an empty frame and leaves the buffer as it was.
\<close>

lemma i32_loop_never_returns:
  assumes "i32_recvd st = [CHR 0xFF, CHR 0xFF, CHR 0xFF, CHR 0xFC]"
  shows "i32_loop cb st = None"
proof (rule ccontr)
  assume "i32_loop cb st \<noteq> None"
  then obtain r where ret: "i32_loop cb st = Some r" by auto
  have "i32_recvd st \<noteq> [CHR 0xFF, CHR 0xFF, CHR 0xFF, CHR 0xFC]"
  proof (rule i32_loop.raw_induct
      [where P = "\<lambda>cb st r. i32_recvd st \<noteq> [CHR 0xFF, CHR 0xFF, CHR 0xFF, CHR 0xFC]", OF _ ret])
    fix f :: "(bytes \<Rightarrow> 'a \<Rightarrow> 'a) \<Rightarrow> 'a Int32StringReceiver \<Rightarrow> 'a Int32StringReceiver option"
      and cb st r
    assume IH: "\<And>cb st r. f cb st = Some r \<Longrightarrow> i32_recvd st \<noteq> [CHR 0xFF, CHR 0xFF, CHR 0xFF, CHR 0xFC]"
      and eq: "(if 3 < length (i32_recvd st)
          then let len = struct_unpack_i (take 4 (i32_recvd st))
               in if int (length (i32_recvd st)) < len + 4 then Some st
                  else f cb (st\<lparr>i32_recvd := slice_from (i32_recvd st) (len + 4),
                              i32_user := cb (slice (i32_recvd st) 4 (len + 4)) (i32_user st)\<rparr>)
          else Some st) = Some r"
    show "i32_recvd st \<noteq> [CHR 0xFF, CHR 0xFF, CHR 0xFF, CHR 0xFC]"
    proof
      assume bad: "i32_recvd st = [CHR 0xFF, CHR 0xFF, CHR 0xFF, CHR 0xFC]"
      with eq have "f cb (st\<lparr>i32_recvd := [CHR 0xFF, CHR 0xFF, CHR 0xFF, CHR 0xFC],
                              i32_user := cb [] (i32_user st)\<rparr>) = Some r"
        by (simp add: struct_unpack_i_def be_nat_def slice_def slice_from_def py_index_def)
      from IH [OF this] show False by simp
    qed
  qed
  with assms show False by simp
qed

lemma struct_unpack_i_range:
  assumes "length hdr = 4"
  shows "- (2 ^ 31) \<le> struct_unpack_i hdr \<and> struct_unpack_i hdr < 2 ^ 31 \<and>
         (struct_unpack_i hdr < 0 \<longleftrightarrow> 2 ^ 31 \<le> be_nat hdr)"
  using be_nat_4_bound [OF assms] by (simp add: struct_unpack_i_def)

lemma i32_negative_header:
  assumes "length hdr = 4" "2 ^ 31 \<le> be_nat hdr"
  shows "i32_loop cb (st\<lparr>i32_recvd := hdr @ rest\<rparr>) =
         i32_loop cb (st\<lparr>i32_recvd := slice_from (hdr @ rest) (int (be_nat hdr) - 2 ^ 32 + 4),
                         i32_user := cb (slice (hdr @ rest) 4 (int (be_nat hdr) - 2 ^ 32 + 4)) (i32_user st)\<rparr>)"
proof -
  have n: "struct_unpack_i hdr = int (be_nat hdr) - 2 ^ 32"
    using assms(2) by (simp add: struct_unpack_i_def)
  have "int (be_nat hdr) < 2 ^ 32"
    using be_nat_4_bound [OF assms(1)] by simp
  then have "\<not> int (length (hdr @ rest)) < struct_unpack_i hdr + 4"
    using assms(1) n by simp
  then show ?thesis
    using i32_loop_frame [of "st\<lparr>i32_recvd := hdr @ rest\<rparr>" cb] assms(1) n by simp
qed

lemma headers_nonnegative_partial:
  assumes "length hdr = 4" "be_nat hdr < 2 ^ 31" "length part < be_nat hdr"
  shows "headers_nonnegative (hdr @ part)"
  using assms by (subst headers_nonnegative.simps) (simp add: struct_unpack_i_def)

lemma headers_nonnegative_frame:
  assumes "length hdr = 4" "be_nat hdr < 2 ^ 31" "length payload = be_nat hdr"
  shows "headers_nonnegative (hdr @ payload)"
proof -
  have "headers_nonnegative []" by (subst headers_nonnegative.simps) simp
  then show ?thesis
    using assms by (subst headers_nonnegative.simps) (simp add: struct_unpack_i_def nat_add_distrib)
qed

lemma i32_header_then_part:
  assumes "length hdr = 4" "be_nat hdr < 2 ^ 31" "i32_recvd st @ recd = hdr @ rest"
    "length rest < be_nat hdr"
  shows "i32_dataReceived cb st recd = Some (st\<lparr>i32_recvd := hdr @ rest\<rparr>)"
proof -
  have "int (length rest) < struct_unpack_i hdr"
    using assms(2,4) by (simp add: struct_unpack_i_def)
  from i32_waits [OF assms(1) this] show ?thesis
    using assms(3) by (simp add: i32_dataReceived_def)
qed

lemma i32_header_then_frame:
  assumes "length hdr = 4" "be_nat hdr < 2 ^ 31" "i32_recvd st @ recd = hdr @ rest"
    "be_nat hdr \<le> length rest"
  shows "i32_dataReceived cb st recd =
         i32_loop cb (st\<lparr>i32_recvd := drop (be_nat hdr) rest,
                         i32_user := cb (take (be_nat hdr) rest) (i32_user st)\<rparr>)"
proof -
  have n: "struct_unpack_i hdr = int (be_nat hdr)"
    using assms(2) by (simp add: struct_unpack_i_def)
  have "i32_loop cb (st\<lparr>i32_recvd := hdr @ rest\<rparr>) =
         i32_loop cb (st\<lparr>i32_recvd := drop (nat (struct_unpack_i hdr)) rest,
                         i32_user := cb (take (nat (struct_unpack_i hdr)) rest) (i32_user st)\<rparr>)"
    using assms(1,4) n by (intro i32_delivers) simp_all
  then show ?thesis
    using assms(3) by (simp add: i32_dataReceived_def n)
qed

lemma i32_feed_header_then_part:
  assumes "length hdr = 4" "be_nat hdr < 2 ^ 31" "concat chunks = hdr @ part"
    "length part < be_nat hdr"
  shows "i32_feed cb (i32_fresh u) chunks = Some \<lparr>i32_recvd = hdr @ part, i32_user = u\<rparr>"
proof -
  have "headers_nonnegative (i32_recvd (i32_fresh u) @ concat chunks)"
    using headers_nonnegative_partial [OF assms(1,2,4)] assms(3) by (simp add: i32_fresh_def)
  moreover have "i32_loop cb (i32_fresh u) = Some (i32_fresh u)"
    by (simp add: i32_loop_short i32_fresh_def)
  ultimately obtain st' where st': "i32_feed cb (i32_fresh u) chunks = Some st'"
      "i32_dataReceived cb (i32_fresh u) (concat chunks) = Some st'"
    using i32_feed_concat [of "i32_fresh u" chunks cb] by blast
  have "i32_dataReceived cb (i32_fresh u) (concat chunks) =
        Some ((i32_fresh u)\<lparr>i32_recvd := hdr @ part\<rparr>)"
    using assms by (intro i32_header_then_part) (simp_all add: i32_fresh_def)
  with st' show ?thesis by (simp add: i32_fresh_def)
qed

lemma i32_feed_header_then_frame:
  assumes "length hdr = 4" "be_nat hdr < 2 ^ 31" "concat chunks = hdr @ payload"
    "length payload = be_nat hdr"
  shows "i32_feed cb (i32_fresh u) chunks = Some \<lparr>i32_recvd = [], i32_user = cb payload u\<rparr>"
proof -
  have "headers_nonnegative (i32_recvd (i32_fresh u) @ concat chunks)"
    using headers_nonnegative_frame [OF assms(1,2,4)] assms(3) by (simp add: i32_fresh_def)
  moreover have "i32_loop cb (i32_fresh u) = Some (i32_fresh u)"
    by (simp add: i32_loop_short i32_fresh_def)
  ultimately obtain st' where st': "i32_feed cb (i32_fresh u) chunks = Some st'"
      "i32_dataReceived cb (i32_fresh u) (concat chunks) = Some st'"
    using i32_feed_concat [of "i32_fresh u" chunks cb] by blast
  have "i32_dataReceived cb (i32_fresh u) (concat chunks) =
        i32_loop cb ((i32_fresh u)\<lparr>i32_recvd := drop (be_nat hdr) payload,
                         i32_user := cb (take (be_nat hdr) payload) (i32_user (i32_fresh u))\<rparr>)"
    using assms by (intro i32_header_then_frame) (simp_all add: i32_fresh_def)
  also have "\<dots> = Some \<lparr>i32_recvd = [], i32_user = cb payload u\<rparr>"
    using assms(4) by (simp add: i32_fresh_def i32_loop_short)
  finally show ?thesis using st' by simp
qed

text \<open>
  Claim C3, amended. \<open>dataReceived\<close> reads the 4-byte big-endian header as a signed
  (two's complement) 32-bit number, \<open>struct.unpack("!i", ...)\<close>. Let the buffer (what the
  receiver kept from earlier calls, followed by the chunk received) start with a 4-byte
  header of unsigned value \<open>U\<close>.
  \<^item> The length read lies between \<open>-2^31\<close> and \<open>2^31 - 1\<close>, and it is negative exactly
    when the top bit of the header is set.
  \<^item> When the top bit is set, the receiver does not wait for \<open>U\<close> bytes: it uses the
    length \<open>U - 2^32\<close>, so it calls \<open>stringReceived\<close> at once with the slice
    \<open>recvd[4:U-2^32+4]\<close>, keeps \<open>recvd[U-2^32+4:]\<close> and goes round the loop again.
  \<^item> When \<open>U < 2^31\<close> and fewer than \<open>U\<close> bytes follow the header, the call delivers
    nothing and keeps header and bytes; when at least \<open>U\<close> bytes follow, it calls
    \<open>stringReceived\<close> with exactly the first \<open>U\<close> of them, drops header and payload and
    goes on with the rest.
  \<^item> When \<open>U < 2^31\<close>, a fresh receiver that is fed the header and fewer than \<open>U\<close>
    payload bytes, cut into chunks in any way (also inside the header), one call per chunk,
    has delivered nothing and keeps them all; fed the header and exactly \<open>U\<close> payload
    bytes, cut in any way, it has called \<open>stringReceived\<close> exactly once, with those \<open>U\<close>
    bytes, and keeps nothing.
\<close>

theorem int32_header_is_signed:
  "(length hdr = 4 \<longrightarrow>
      - (2 ^ 31) \<le> struct_unpack_i hdr \<and> struct_unpack_i hdr < 2 ^ 31 \<and>
      (struct_unpack_i hdr < 0 \<longleftrightarrow> 2 ^ 31 \<le> be_nat hdr)) \<and>
   (length hdr = 4 \<and> 2 ^ 31 \<le> be_nat hdr \<and> i32_recvd st @ recd = hdr @ rest \<longrightarrow>
      i32_dataReceived cb st recd =
      i32_loop cb (st\<lparr>i32_recvd := slice_from (hdr @ rest) (int (be_nat hdr) - 2 ^ 32 + 4),
                      i32_user := cb (slice (hdr @ rest) 4 (int (be_nat hdr) - 2 ^ 32 + 4))
                                    (i32_user st)\<rparr>)) \<and>
   (length hdr = 4 \<and> be_nat hdr < 2 ^ 31 \<and> i32_recvd st @ recd = hdr @ rest \<and>
    length rest < be_nat hdr \<longrightarrow>
      i32_dataReceived cb st recd = Some (st\<lparr>i32_recvd := hdr @ rest\<rparr>)) \<and>
   (length hdr = 4 \<and> be_nat hdr < 2 ^ 31 \<and> i32_recvd st @ recd = hdr @ rest \<and>
    be_nat hdr \<le> length rest \<longrightarrow>
      i32_dataReceived cb st recd =
      i32_loop cb (st\<lparr>i32_recvd := drop (be_nat hdr) rest,
                      i32_user := cb (take (be_nat hdr) rest) (i32_user st)\<rparr>)) \<and>
   (length hdr = 4 \<and> be_nat hdr < 2 ^ 31 \<and> concat chunks = hdr @ payload \<and>
    length payload < be_nat hdr \<longrightarrow>
      i32_feed cb (i32_fresh u) chunks = Some \<lparr>i32_recvd = hdr @ payload, i32_user = u\<rparr>) \<and>
   (length hdr = 4 \<and> be_nat hdr < 2 ^ 31 \<and> concat chunks = hdr @ payload \<and>
    length payload = be_nat hdr \<longrightarrow>
      i32_feed cb (i32_fresh u) chunks = Some \<lparr>i32_recvd = [], i32_user = cb payload u\<rparr>) \<and>
   (length hdr = 4 \<and> be_nat hdr < 2 ^ 31 \<and> length payload < be_nat hdr \<longrightarrow>
      i32_dataReceived cb (i32_fresh u) (hdr @ payload) =
      Some \<lparr>i32_recvd = hdr @ payload, i32_user = u\<rparr>) \<and>
   (length hdr = 4 \<and> be_nat hdr < 2 ^ 31 \<and> length payload = be_nat hdr \<longrightarrow>
      i32_dataReceived cb (i32_fresh u) (hdr @ payload) =
      Some \<lparr>i32_recvd = [], i32_user = cb payload u\<rparr>)"
proof -
  have range: "- (2 ^ 31) \<le> struct_unpack_i hdr \<and> struct_unpack_i hdr < 2 ^ 31 \<and>
      (struct_unpack_i hdr < 0 \<longleftrightarrow> 2 ^ 31 \<le> be_nat hdr)"
    if "length hdr = 4"
    using struct_unpack_i_range [OF that] .
  have negative: "i32_dataReceived cb st recd =
      i32_loop cb (st\<lparr>i32_recvd := slice_from (hdr @ rest) (int (be_nat hdr) - 2 ^ 32 + 4),
                      i32_user := cb (slice (hdr @ rest) 4 (int (be_nat hdr) - 2 ^ 32 + 4))
                                    (i32_user st)\<rparr>)"
    if a: "length hdr = 4 \<and> 2 ^ 31 \<le> be_nat hdr \<and> i32_recvd st @ recd = hdr @ rest"
    using a i32_negative_header [where hdr = hdr and cb = cb and st = st and rest = rest] by (simp add: i32_dataReceived_def)
  have waits: "i32_dataReceived cb st recd = Some (st\<lparr>i32_recvd := hdr @ rest\<rparr>)"
    if a: "length hdr = 4 \<and> be_nat hdr < 2 ^ 31 \<and> i32_recvd st @ recd = hdr @ rest \<and>
           length rest < be_nat hdr"
    using a by (intro i32_header_then_part) simp_all
  have delivers: "i32_dataReceived cb st recd =
      i32_loop cb (st\<lparr>i32_recvd := drop (be_nat hdr) rest,
                      i32_user := cb (take (be_nat hdr) rest) (i32_user st)\<rparr>)"
    if a: "length hdr = 4 \<and> be_nat hdr < 2 ^ 31 \<and> i32_recvd st @ recd = hdr @ rest \<and>
           be_nat hdr \<le> length rest"
    using a by (intro i32_header_then_frame) simp_all
  have feed_waits: "i32_feed cb (i32_fresh u) chunks = Some \<lparr>i32_recvd = hdr @ payload, i32_user = u\<rparr>"
    if a: "length hdr = 4 \<and> be_nat hdr < 2 ^ 31 \<and> concat chunks = hdr @ payload \<and>
           length payload < be_nat hdr"
    using a by (intro i32_feed_header_then_part) simp_all
  have feed_delivers: "i32_feed cb (i32_fresh u) chunks = Some \<lparr>i32_recvd = [], i32_user = cb payload u\<rparr>"
    if a: "length hdr = 4 \<and> be_nat hdr < 2 ^ 31 \<and> concat chunks = hdr @ payload \<and>
           length payload = be_nat hdr"
    using a by (intro i32_feed_header_then_frame) simp_all
  have fresh_waits: "i32_dataReceived cb (i32_fresh u) (hdr @ payload) =
      Some \<lparr>i32_recvd = hdr @ payload, i32_user = u\<rparr>"
    if a: "length hdr = 4 \<and> be_nat hdr < 2 ^ 31 \<and> length payload < be_nat hdr"
    using a i32_header_then_part [where hdr = hdr and st = "i32_fresh u" and recd = "hdr @ payload"
        and rest = payload and cb = cb]
    by (simp add: i32_fresh_def)
  have fresh_delivers: "i32_dataReceived cb (i32_fresh u) (hdr @ payload) =
      Some \<lparr>i32_recvd = [], i32_user = cb payload u\<rparr>"
    if a: "length hdr = 4 \<and> be_nat hdr < 2 ^ 31 \<and> length payload = be_nat hdr"
    using a i32_header_then_frame [where hdr = hdr and st = "i32_fresh u" and recd = "hdr @ payload"
        and rest = payload and cb = cb]
    by (simp add: i32_fresh_def i32_loop_short)
  from range negative waits delivers feed_waits feed_delivers fresh_waits fresh_delivers
  show ?thesis by blast
qed

theorem int32_header_is_signed_witness:
  "length [CHR 0x00, CHR 0x00, CHR 0x01, CHR 0x02] = 4 \<and>
   be_nat [CHR 0x00, CHR 0x00, CHR 0x01, CHR 0x02] = 258 \<and>
   struct_unpack_i [CHR 0x00, CHR 0x00, CHR 0x01, CHR 0x02] = 258 \<and>
   i32_dataReceived record_frame (i32_fresh []) ([CHR 0x00, CHR 0x00, CHR 0x01, CHR 0x02] @ replicate 257 CHR ''x'') =
     Some \<lparr>i32_recvd = [CHR 0x00, CHR 0x00, CHR 0x01, CHR 0x02] @ replicate 257 CHR ''x'', i32_user = []\<rparr> \<and>
   i32_dataReceived record_frame (i32_fresh []) ([CHR 0x00, CHR 0x00, CHR 0x01, CHR 0x02] @ replicate 258 CHR ''x'') =
     Some \<lparr>i32_recvd = [], i32_user = [replicate 258 CHR ''x'']\<rparr> \<and>
   length [CHR 0xFF, CHR 0xFF, CHR 0xFF, CHR 0xFF] = 4 \<and>
   (2 :: nat) ^ 31 \<le> be_nat [CHR 0xFF, CHR 0xFF, CHR 0xFF, CHR 0xFF] \<and>
   struct_unpack_i [CHR 0xFF, CHR 0xFF, CHR 0xFF, CHR 0xFF] = - 1 \<and>
   i32_dataReceived record_frame \<lparr>i32_recvd = [CHR 0xFF, CHR 0xFF], i32_user = []\<rparr> [CHR 0xFF, CHR 0xFF] =
     Some \<lparr>i32_recvd = [CHR 0xFF], i32_user = ['''']\<rparr> \<and>
   length [CHR 0x00, CHR 0x00, CHR 0x00, CHR 0x03] = 4 \<and>
   be_nat [CHR 0x00, CHR 0x00, CHR 0x00, CHR 0x03] = 3 \<and>
   i32_dataReceived record_frame \<lparr>i32_recvd = [CHR 0x00, CHR 0x00], i32_user = []\<rparr>
       [CHR 0x00, CHR 0x03, CHR ''a''] =
     Some \<lparr>i32_recvd = [CHR 0x00, CHR 0x00, CHR 0x00, CHR 0x03, CHR ''a''], i32_user = []\<rparr> \<and>
   i32_dataReceived record_frame
       \<lparr>i32_recvd = [CHR 0x00, CHR 0x00, CHR 0x00, CHR 0x03, CHR ''a''], i32_user = []\<rparr> ''bcd'' =
     Some \<lparr>i32_recvd = ''d'', i32_user = [''abc'']\<rparr> \<and>
   i32_feed record_frame (i32_fresh []) [[CHR 0x00, CHR 0x00], [CHR 0x00, CHR 0x03, CHR ''a''], ''b''] =
     Some \<lparr>i32_recvd = [CHR 0x00, CHR 0x00, CHR 0x00, CHR 0x03] @ ''ab'', i32_user = []\<rparr> \<and>
   i32_feed record_frame (i32_fresh []) [[CHR 0x00, CHR 0x00], [CHR 0x00, CHR 0x03, CHR ''a''], ''b'', ''c''] =
     Some \<lparr>i32_recvd = [], i32_user = [''abc'']\<rparr>"
  using
    int32_header_is_signed [where hdr = "[CHR 0x00, CHR 0x00, CHR 0x01, CHR 0x02]"
      and payload = "replicate 257 CHR ''x''" and cb = record_frame and u = "[]"]
    int32_header_is_signed [where hdr = "[CHR 0x00, CHR 0x00, CHR 0x01, CHR 0x02]"
      and payload = "replicate 258 CHR ''x''" and cb = record_frame and u = "[]"]
    int32_header_is_signed [where hdr = "[CHR 0xFF, CHR 0xFF, CHR 0xFF, CHR 0xFF]"
      and st = "\<lparr>i32_recvd = [CHR 0xFF, CHR 0xFF], i32_user = []\<rparr>"
      and recd = "[CHR 0xFF, CHR 0xFF]" and rest = "[]" and cb = record_frame]
    int32_header_is_signed [where hdr = "[CHR 0x00, CHR 0x00, CHR 0x00, CHR 0x03]"
      and st = "\<lparr>i32_recvd = [CHR 0x00, CHR 0x00], i32_user = []\<rparr>"
      and recd = "[CHR 0x00, CHR 0x03, CHR ''a'']" and rest = "''a''" and cb = record_frame
      and chunks = "[[CHR 0x00, CHR 0x00], [CHR 0x00, CHR 0x03, CHR ''a''], ''b'']"
      and payload = "''ab''" and u = "[]"]
    int32_header_is_signed [where hdr = "[CHR 0x00, CHR 0x00, CHR 0x00, CHR 0x03]"
      and st = "\<lparr>i32_recvd = [CHR 0x00, CHR 0x00, CHR 0x00, CHR 0x03, CHR ''a''], i32_user = []\<rparr>"
      and recd = "''bcd''" and rest = "''abcd''" and cb = record_frame
      and chunks = "[[CHR 0x00, CHR 0x00], [CHR 0x00, CHR 0x03, CHR ''a''], ''b'', ''c'']"
      and payload = "''abc''" and u = "[]"]
  by (simp add: be_nat_def struct_unpack_i_def record_frame_def i32_loop_short
      slice_def slice_from_def py_index_def)

text \<open>
  Claim C3 as stated (an unsigned header, for every \<open>N < 2^32\<close>) fails: the header
  \<open>FF FF FF FE\<close> declares \<open>N = 4294967294\<close> as an unsigned number. With no payload byte
  received, the receiver does not wait: it reads the length \<open>-2\<close>, calls
  \<open>stringReceived\<close> with the empty string and drops the first two bytes of the header.
\<close>

theorem int32_unsigned_header_counterexample:
  "be_nat [CHR 0xFF, CHR 0xFF, CHR 0xFF, CHR 0xFE] = 4294967294 \<and>
   i32_dataReceived record_frame (i32_fresh []) [CHR 0xFF, CHR 0xFF, CHR 0xFF, CHR 0xFE] =
     Some \<lparr>i32_recvd = [CHR 0xFF, CHR 0xFE], i32_user = ['''']\<rparr>"
  by (simp add: i32_dataReceived_def i32_fresh_def i32_loop.simps struct_unpack_i_def be_nat_def
      slice_def slice_from_def py_index_def record_frame_def Let_def)

section \<open>Int32StringReceiver: frame boundaries\<close>

text \<open>
  Frames with a length that is not negative. Let the buffer (what was kept, followed by
  the chunk received) start with a 4-byte header, and let \<open>declaredLength\<close> be the header
  read as a signed big-endian number. If fewer than \<open>declaredLength\<close> bytes follow the
  header, \<open>dataReceived\<close> consumes nothing and delivers nothing. If \<open>declaredLength\<close> is
  not negative and at least \<open>declaredLength\<close> bytes follow, it consumes header and payload
  together, calls \<open>stringReceived\<close> with exactly the \<open>declaredLength\<close> bytes after the
  header and goes on with the rest of the buffer. A header declaring 0 gives an empty
  frame. A header declaring 5 followed by 3 bytes delivers nothing; the 2 remaining bytes,
  fed next, complete exactly one frame of 5 bytes.
\<close>

theorem int32_frame_boundary:
  "(length hdr = 4 \<and> i32_recvd st @ recd = hdr @ rest \<and> int (length rest) < struct_unpack_i hdr \<longrightarrow>
      i32_dataReceived cb st recd = Some (st\<lparr>i32_recvd := hdr @ rest\<rparr>)) \<and>
   (length hdr = 4 \<and> i32_recvd st @ recd = hdr @ rest \<and> 0 \<le> struct_unpack_i hdr \<and>
    struct_unpack_i hdr \<le> int (length rest) \<longrightarrow>
      i32_dataReceived cb st recd =
      i32_loop cb (st\<lparr>i32_recvd := drop (nat (struct_unpack_i hdr)) rest,
                      i32_user := cb (take (nat (struct_unpack_i hdr)) rest) (i32_user st)\<rparr>)) \<and>
   i32_dataReceived cb (i32_fresh u) [CHR 0x00, CHR 0x00, CHR 0x00, CHR 0x00] =
     Some \<lparr>i32_recvd = [], i32_user = cb [] u\<rparr> \<and>
   i32_dataReceived record_frame (i32_fresh []) ([CHR 0x00, CHR 0x00, CHR 0x00, CHR 0x05] @ ''abc'') =
     Some \<lparr>i32_recvd = [CHR 0x00, CHR 0x00, CHR 0x00, CHR 0x05] @ ''abc'', i32_user = []\<rparr> \<and>
   i32_feed record_frame (i32_fresh []) [[CHR 0x00, CHR 0x00, CHR 0x00, CHR 0x05] @ ''abc'', ''de''] =
     Some \<lparr>i32_recvd = [], i32_user = [''abcde'']\<rparr>"
proof (intro conjI impI)
  assume a: "length hdr = 4 \<and> i32_recvd st @ recd = hdr @ rest \<and> int (length rest) < struct_unpack_i hdr"
  then have "i32_loop cb (st\<lparr>i32_recvd := hdr @ rest\<rparr>) = Some (st\<lparr>i32_recvd := hdr @ rest\<rparr>)"
    by (intro i32_waits) simp_all
  with a show "i32_dataReceived cb st recd = Some (st\<lparr>i32_recvd := hdr @ rest\<rparr>)"
    by (simp add: i32_dataReceived_def)
next
  assume a: "length hdr = 4 \<and> i32_recvd st @ recd = hdr @ rest \<and> 0 \<le> struct_unpack_i hdr \<and>
    struct_unpack_i hdr \<le> int (length rest)"
  then have "i32_loop cb (st\<lparr>i32_recvd := hdr @ rest\<rparr>) =
      i32_loop cb (st\<lparr>i32_recvd := drop (nat (struct_unpack_i hdr)) rest,
                      i32_user := cb (take (nat (struct_unpack_i hdr)) rest) (i32_user st)\<rparr>)"
    by (intro i32_delivers) simp_all
  with a show "i32_dataReceived cb st recd =
      i32_loop cb (st\<lparr>i32_recvd := drop (nat (struct_unpack_i hdr)) rest,
                      i32_user := cb (take (nat (struct_unpack_i hdr)) rest) (i32_user st)\<rparr>)"
    by (simp add: i32_dataReceived_def)
next
  show "i32_dataReceived cb (i32_fresh u) [CHR 0x00, CHR 0x00, CHR 0x00, CHR 0x00] =
     Some \<lparr>i32_recvd = [], i32_user = cb [] u\<rparr>"
    by (simp add: i32_dataReceived_def i32_fresh_def i32_loop.simps struct_unpack_i_def be_nat_def
        slice_def slice_from_def py_index_def Let_def)
next
  show "i32_dataReceived record_frame (i32_fresh []) ([CHR 0x00, CHR 0x00, CHR 0x00, CHR 0x05] @ ''abc'') =
     Some \<lparr>i32_recvd = [CHR 0x00, CHR 0x00, CHR 0x00, CHR 0x05] @ ''abc'', i32_user = []\<rparr>"
    by (simp add: i32_dataReceived_def i32_fresh_def i32_loop.simps struct_unpack_i_def be_nat_def
        slice_def slice_from_def py_index_def Let_def)
next
  show "i32_feed record_frame (i32_fresh []) [[CHR 0x00, CHR 0x00, CHR 0x00, CHR 0x05] @ ''abc'', ''de''] =
     Some \<lparr>i32_recvd = [], i32_user = [''abcde'']\<rparr>"
    by (simp add: i32_feed_def i32_dataReceived_def i32_fresh_def i32_loop.simps struct_unpack_i_def
        be_nat_def slice_def slice_from_def py_index_def record_frame_def Let_def)
qed

theorem int32_frame_boundary_witness:
  "struct_unpack_i [CHR 0x00, CHR 0x00, CHR 0x00, CHR 0x02] = 2 \<and>
   i32_dataReceived record_frame \<lparr>i32_recvd = [CHR 0x00, CHR 0x00], i32_user = []\<rparr>
       [CHR 0x00, CHR 0x02, CHR ''h''] =
     Some \<lparr>i32_recvd = [CHR 0x00, CHR 0x00, CHR 0x00, CHR 0x02, CHR ''h''], i32_user = []\<rparr> \<and>
   i32_dataReceived record_frame
       \<lparr>i32_recvd = [CHR 0x00, CHR 0x00, CHR 0x00, CHR 0x02, CHR ''h''], i32_user = []\<rparr> ''i!'' =
     Some \<lparr>i32_recvd = ''!'', i32_user = [''hi'']\<rparr>"
  using
    int32_frame_boundary [where hdr = "[CHR 0x00, CHR 0x00, CHR 0x00, CHR 0x02]"
      and st = "\<lparr>i32_recvd = [CHR 0x00, CHR 0x00], i32_user = []\<rparr>"
      and recd = "[CHR 0x00, CHR 0x02, CHR ''h'']" and rest = "''h''" and cb = record_frame]
    int32_frame_boundary [where hdr = "[CHR 0x00, CHR 0x00, CHR 0x00, CHR 0x02]"
      and st = "\<lparr>i32_recvd = [CHR 0x00, CHR 0x00, CHR 0x00, CHR 0x02, CHR ''h''], i32_user = []\<rparr>"
      and recd = "''i!''" and rest = "''hi!''" and cb = record_frame]
  by (simp add: be_nat_def struct_unpack_i_def record_frame_def i32_loop_short)

text \<open>
  Claim C6. The frame boundary is not kept for a header read as a negative length:
  \<open>dataReceived\<close> never tests \<open>length < 0\<close>. The buffer \<open>FF FF FF FF 'a' 'b'\<close> holds
  at least \<open>4 + declaredLength\<close> bytes for the \<open>declaredLength\<close> of \<open>-1\<close> read from its
  first 4 bytes, but header and payload are not consumed together: \<open>recvd[4:3]\<close> is empty
  and \<open>recvd[3:]\<close> starts inside the header, so the receiver calls \<open>stringReceived\<close> with
  the empty string and keeps the last byte of the header before the two payload bytes. For
  the header \<open>FF FF FF FC\<close>, read as \<open>-4\<close>, \<open>recvd[4:0]\<close> is empty and \<open>recvd[0:]\<close> is
  the whole buffer: the call delivers empty frames without end and never returns, whatever
  the callback and the application state. The docstring of \<open>dataReceived\<close> is
  \<open>Convert int32 prefixed strings into calls to stringReceived\<close>.
\<close>

theorem int32_negative_length_frame:
  "struct_unpack_i [CHR 0xFF, CHR 0xFF, CHR 0xFF, CHR 0xFF] = - 1 \<and>
   i32_dataReceived record_frame (i32_fresh []) ([CHR 0xFF, CHR 0xFF, CHR 0xFF, CHR 0xFF] @ ''ab'') =
     Some \<lparr>i32_recvd = CHR 0xFF # ''ab'', i32_user = ['''']\<rparr> \<and>
   struct_unpack_i [CHR 0xFF, CHR 0xFF, CHR 0xFF, CHR 0xFC] = - 4 \<and>
   i32_dataReceived cb (i32_fresh u) [CHR 0xFF, CHR 0xFF, CHR 0xFF, CHR 0xFC] = None"
proof -
  have frame: "struct_unpack_i [CHR 0xFF, CHR 0xFF, CHR 0xFF, CHR 0xFF] = - 1 \<and>
      i32_dataReceived record_frame (i32_fresh []) ([CHR 0xFF, CHR 0xFF, CHR 0xFF, CHR 0xFF] @ ''ab'') =
        Some \<lparr>i32_recvd = CHR 0xFF # ''ab'', i32_user = ['''']\<rparr>"
    by (simp add: i32_dataReceived_def i32_fresh_def i32_loop.simps struct_unpack_i_def be_nat_def
        slice_def slice_from_def py_index_def record_frame_def Let_def)
  have len: "struct_unpack_i [CHR 0xFF, CHR 0xFF, CHR 0xFF, CHR 0xFC] = - 4"
    by (simp add: struct_unpack_i_def be_nat_def)
  have never: "i32_dataReceived cb (i32_fresh u) [CHR 0xFF, CHR 0xFF, CHR 0xFF, CHR 0xFC] = None"
    unfolding i32_dataReceived_def by (rule i32_loop_never_returns) (simp add: i32_fresh_def)
  from frame len never show ?thesis by blast
qed

section \<open>Round trip: encoders against decoders\<close>

text \<open>
  Claim C2, amended. For every payload \<open>P\<close>, the empty one included, the bytes that
  \<open>NetstringReceiver.sendString\<close> writes make a fresh NetstringReceiver call
  \<open>stringReceived\<close> exactly once, with \<open>P\<close>, raise nothing and leave nothing unconsumed
  (mode \<open>LENGTH\<close>, length 0; the private \<open>__buffer\<close> still holds the delivered payload
  until the next \<open>:\<close> resets it). For every \<open>P\<close> that does not contain the delimiter, the
  bytes that \<open>LineReceiver.sendLine\<close> writes make a fresh LineReceiver call
  \<open>lineReceived\<close> exactly once, with \<open>P\<close>, and leave its buffer empty, when the delimiter
  is the one of the class, \<open>"\r\n"\<close>, or any other non-empty delimiter that cannot overlap
  itself. For every \<open>P\<close> of fewer than \<open>2^31\<close> bytes, \<open>Int32StringReceiver.sendString\<close>
  writes bytes that make a fresh Int32StringReceiver call \<open>stringReceived\<close> exactly once,
  with \<open>P\<close>, and leave its buffer empty.
\<close>

theorem framing_round_trip:
  "ns_dataReceived cb (ns_fresh u) (ns_sendString P) =
     Inr \<lparr>ns_mode = LENGTH, ns_length = 0, ns_buffer = P, ns_data = [], ns_user = cb P u\<rparr> \<and>
   (\<not> sublist CRLF P \<longrightarrow>
      lr_dataReceived lineReceived rawDataReceived (lr_fresh v) (sendLine (lr_fresh v) P) =
      \<lparr>lr_line_mode = \<not> snd (lineReceived P v), lr_buffer = [], lr_delimiter = CRLF,
       lr_user = fst (lineReceived P v)\<rparr>) \<and>
   (d \<noteq> [] \<and> overlap_free d \<and> \<not> sublist d P \<longrightarrow>
      lr_dataReceived lineReceived rawDataReceived ((lr_fresh v)\<lparr>lr_delimiter := d\<rparr>)
        (sendLine ((lr_fresh v)\<lparr>lr_delimiter := d\<rparr>) P) =
      \<lparr>lr_line_mode = \<not> snd (lineReceived P v), lr_buffer = [], lr_delimiter = d,
       lr_user = fst (lineReceived P v)\<rparr>) \<and>
   (length P < 2 ^ 31 \<longrightarrow>
      (\<exists>wire. i32_sendString P = Inr wire \<and>
              i32_dataReceived cb' (i32_fresh w) wire = Some \<lparr>i32_recvd = [], i32_user = cb' P w\<rparr>))"
  using ns_roundtrip [of cb u P] lr_roundtrip_CRLF [of P lineReceived rawDataReceived v]
    lr_roundtrip [of d P lineReceived rawDataReceived v] i32_roundtrip [of P cb' w]
  by blast

theorem framing_round_trip_witness:
  "ns_dataReceived record_frame (ns_fresh []) ''2:hi,'' =
     Inr \<lparr>ns_mode = LENGTH, ns_length = 0, ns_buffer = ''hi'', ns_data = [], ns_user = [''hi'']\<rparr> \<and>
   \<not> sublist CRLF ''hi'' \<and>
   lr_dataReceived (record_line (\<lambda>evs l. False)) record_raw (lr_fresh []) (''hi'' @ CRLF) =
     \<lparr>lr_line_mode = True, lr_buffer = [], lr_delimiter = CRLF, lr_user = [Line ''hi'']\<rparr> \<and>
   ''--'' @ CRLF \<noteq> [] \<and> overlap_free (''--'' @ CRLF) \<and> \<not> sublist (''--'' @ CRLF) ''hi'' \<and>
   lr_dataReceived (record_line (\<lambda>evs l. False)) record_raw
       ((lr_fresh [])\<lparr>lr_delimiter := ''--'' @ CRLF\<rparr>) (''hi'' @ ''--'' @ CRLF) =
     \<lparr>lr_line_mode = True, lr_buffer = [], lr_delimiter = ''--'' @ CRLF, lr_user = [Line ''hi'']\<rparr> \<and>
   length ''hi'' < (2 :: nat) ^ 31 \<and>
   i32_sendString ''hi'' = Inr [CHR 0x00, CHR 0x00, CHR 0x00, CHR 0x02, CHR ''h'', CHR ''i''] \<and>
   i32_dataReceived record_frame (i32_fresh []) [CHR 0x00, CHR 0x00, CHR 0x00, CHR 0x02, CHR ''h'', CHR ''i''] =
     Some \<lparr>i32_recvd = [], i32_user = [''hi'']\<rparr>"
  using framing_round_trip [where cb = record_frame and u = "[]" and P = "''hi''"
      and lineReceived = "record_line (\<lambda>evs l. False)" and rawDataReceived = record_raw
      and v = "[]" and d = "''--'' @ CRLF" and cb' = record_frame and w = "[]"]
  by (simp add: ns_sendString_def decimal.simps digit_char_def sendLine_def lr_fresh_def
      record_line_def record_frame_def sublist_Cons_right CRLF_def overlap_free_def
      i32_sendString_def struct_pack_i_def char_of_def bit_0)

text \<open>
  Claim C2 as stated fails in two places. For Int32StringReceiver, a payload of \<open>2^31\<close>
  bytes has a length that does not fit the signed 32-bit format \<open>"!i"\<close>: \<open>sendString\<close>
  raises \<open>struct.error\<close> and writes nothing. For LineReceiver, \<open>delimiter\<close> is an attribute
  that a subclass may override; with a delimiter that can overlap itself a payload that does
  not contain it need not come back: with \<open>"aa"\<close>, \<open>sendLine("a")\<close> writes \<open>"aaa"\<close>, which
  splits at the leftmost occurrence into the empty line and the rest \<open>"a"\<close>.
\<close>

theorem round_trip_counterexample:
  "length (replicate (2 ^ 31) (CHR 0x00)) = 2 ^ 31 \<and>
   i32_sendString (replicate (2 ^ 31) (CHR 0x00)) = Inl StructError \<and>
   \<not> sublist ''aa'' ''a'' \<and>
   sendLine ((lr_fresh [])\<lparr>lr_delimiter := ''aa''\<rparr>) ''a'' = ''aaa'' \<and>
   lr_dataReceived (record_line (\<lambda>evs l. False)) record_raw ((lr_fresh [])\<lparr>lr_delimiter := ''aa''\<rparr>) ''aaa'' =
     \<lparr>lr_line_mode = True, lr_buffer = ''a'', lr_delimiter = ''aa'', lr_user = [Line '''']\<rparr>"
  by (simp add: i32_sendString_def struct_pack_i_def sendLine_def lr_fresh_def lr_dataReceived_def
      lr_loop.simps record_line_def sublist_Cons_right)

section \<open>Chunk-boundary invariance\<close>

text \<open>
  Where the chunking of the input does not matter. For every byte stream and every
  partition of it into consecutive chunks, one \<open>dataReceived\<close> call per chunk on a fresh
  decoder and one call with the whole stream give:
  \<^item> NetstringReceiver: the same result, that is, either both return and leave the same
    receiver (same frames delivered, same mode, length and payload collected), or both
    raise \<open>NetstringParseError\<close> with the same frames delivered before and the same mode,
    length and payload at the raise (\<open>ns_outcome\<close> forgets only the unconsumed rest of the
    chunk being read, which is also the argument of the exception and necessarily depends
    on where the chunk ends);
  \<^item> LineReceiver, for any delimiter, with the callbacks \<open>record_line\<close> and
    \<open>record_raw\<close>, that is, a \<open>lineReceived\<close> that may call \<open>setRawMode\<close> and a
    \<open>rawDataReceived\<close> that never calls \<open>setLineMode\<close>: the same sequence of
    \<open>lineReceived\<close> calls. The restriction is needed: raw data is handed over as it
    arrives, so a \<open>rawDataReceived\<close> that goes back to line mode sees a different rest of
    the stream as lines when the chunks are cut differently;
  \<^item> Int32StringReceiver: when no header that the one-chunk decoding reads has its top bit
    set, both return and leave the same receiver (same frames delivered, same bytes kept).
\<close>

theorem chunk_boundary_invariance:
  "ns_outcome (ns_feed cb (ns_fresh u) chunks) =
     ns_outcome (ns_dataReceived cb (ns_fresh u) (concat chunks)) \<and>
   lines_of (lr_user (lr_feed (record_line switch) record_raw ((lr_fresh [])\<lparr>lr_delimiter := d\<rparr>) chunks)) =
     lines_of (lr_user (lr_dataReceived (record_line switch) record_raw
                          ((lr_fresh [])\<lparr>lr_delimiter := d\<rparr>) (concat chunks))) \<and>
   (headers_nonnegative (concat chunks) \<longrightarrow>
      (\<exists>st'. i32_feed cb' (i32_fresh w) chunks = Some st' \<and>
             i32_dataReceived cb' (i32_fresh w) (concat chunks) = Some st'))"
proof (intro conjI impI)
  show "ns_outcome (ns_feed cb (ns_fresh u) chunks) =
     ns_outcome (ns_dataReceived cb (ns_fresh u) (concat chunks))"
    by (rule ns_feed_concat) (simp add: ns_fresh_def)
next
  have silent: "\<And>dt evs. lines_of (record_raw dt evs) = lines_of evs"
    by (simp add: record_raw_def)
  show "lines_of (lr_user (lr_feed (record_line switch) record_raw ((lr_fresh [])\<lparr>lr_delimiter := d\<rparr>) chunks)) =
     lines_of (lr_user (lr_dataReceived (record_line switch) record_raw
                          ((lr_fresh [])\<lparr>lr_delimiter := d\<rparr>) (concat chunks)))"
    by (rule lr_feed_concat [where obs = lines_of and rh = record_raw, OF silent]) (rule lr_fresh_quiet)
next
  assume "headers_nonnegative (concat chunks)"
  then show "\<exists>st'. i32_feed cb' (i32_fresh w) chunks = Some st' \<and>
             i32_dataReceived cb' (i32_fresh w) (concat chunks) = Some st'"
    by (intro i32_feed_concat) (simp_all add: i32_fresh_def i32_loop_short)
qed

theorem chunk_boundary_invariance_witness:
  "headers_nonnegative (concat [[CHR 0x00, CHR 0x00], [CHR 0x00, CHR 0x02, CHR ''h''], ''i'', [CHR 0x00]]) \<and>
   i32_feed record_frame (i32_fresh []) [[CHR 0x00, CHR 0x00], [CHR 0x00, CHR 0x02, CHR ''h''], ''i'', [CHR 0x00]] =
     Some \<lparr>i32_recvd = [CHR 0x00], i32_user = [''hi'']\<rparr> \<and>
   i32_dataReceived record_frame (i32_fresh [])
       (concat [[CHR 0x00, CHR 0x00], [CHR 0x00, CHR 0x02, CHR ''h''], ''i'', [CHR 0x00]]) =
     Some \<lparr>i32_recvd = [CHR 0x00], i32_user = [''hi'']\<rparr> \<and>
   ns_outcome (ns_feed record_frame (ns_fresh []) [''1:a'', '',x'', ''1:b,'']) =
     Inl (NetstringParseError [],
          \<lparr>ns_mode = LENGTH, ns_length = 0, ns_buffer = ''a'', ns_data = [], ns_user = [''a'']\<rparr>) \<and>
   ns_outcome (ns_dataReceived record_frame (ns_fresh []) (concat [''1:a'', '',x'', ''1:b,''])) =
     Inl (NetstringParseError [],
          \<lparr>ns_mode = LENGTH, ns_length = 0, ns_buffer = ''a'', ns_data = [], ns_user = [''a'']\<rparr>) \<and>
   lines_of (lr_user (lr_feed (record_line (\<lambda>evs l. False)) record_raw
                        ((lr_fresh [])\<lparr>lr_delimiter := CRLF\<rparr>) [''foo'', ''bar'' @ [CHR 0x0D], [CHR 0x0A] @ ''x''])) =
     [''foobar'']"
  using chunk_boundary_invariance
    [where chunks = "[[CHR 0x00, CHR 0x00], [CHR 0x00, CHR 0x02, CHR ''h''], ''i'', [CHR 0x00]]"
       and cb' = record_frame and w = "[]" and cb = record_frame and u = "[]"
       and switch = "\<lambda>evs l. False" and d = CRLF]
    chunk_boundary_invariance
    [where chunks = "[''1:a'', '',x'', ''1:b,'']"
       and cb' = record_frame and w = "[]" and cb = record_frame and u = "[]"
       and switch = "\<lambda>evs l. False" and d = CRLF]
    chunk_boundary_invariance
    [where chunks = "[''foo'', ''bar'' @ [CHR 0x0D], [CHR 0x0A] @ ''x'']"
       and cb' = record_frame and w = "[]" and cb = record_frame and u = "[]"
       and switch = "\<lambda>evs l. False" and d = CRLF]
  by (simp add: headers_nonnegative.simps struct_unpack_i_def be_nat_def
      i32_dataReceived_def i32_fresh_def i32_loop.simps slice_def slice_from_def py_index_def
      record_frame_def Let_def
      ns_outcome_def ns_dataReceived_def ns_fresh_def ns_loop.simps doLength_def doData_def
      doComma_def NUMBER_match_def isdigit_def py_int_def digit_val_def
      lr_dataReceived_def lr_fresh_def lr_loop.simps CRLF_def record_line_def record_raw_def)

text \<open>
  Claim C1. Int32StringReceiver does not decode a stream independently of its chunking
  when a header is read as a negative length: \<open>dataReceived\<close> never tests \<open>length < 0\<close>,
  and for \<open>-5\<close> (\<open>FF FF FF FB\<close>) the slices \<open>recvd[4:length+4]\<close> and
  \<open>recvd[length+4:]\<close> count from the end of the buffer, so the frame depends on how much
  has arrived. The stream \<open>FF FF FF FB "abcdef"\<close> fed in one chunk to a fresh receiver
  delivers the frame \<open>"abcde"\<close> and keeps \<open>"f"\<close>; fed as the two chunks
  \<open>FF FF FF FB "a"\<close> and \<open>"bcdef"\<close>, it delivers the empty frame and keeps \<open>"abcdef"\<close>.
\<close>

theorem int32_chunking_failing_input:
  "struct_unpack_i [CHR 0xFF, CHR 0xFF, CHR 0xFF, CHR 0xFB] = - 5 \<and>
   i32_dataReceived record_frame (i32_fresh [])
       (concat [[CHR 0xFF, CHR 0xFF, CHR 0xFF, CHR 0xFB, CHR ''a''], ''bcdef'']) =
     Some \<lparr>i32_recvd = ''f'', i32_user = [''abcde'']\<rparr> \<and>
   i32_feed record_frame (i32_fresh []) [[CHR 0xFF, CHR 0xFF, CHR 0xFF, CHR 0xFB, CHR ''a''], ''bcdef''] =
     Some \<lparr>i32_recvd = ''abcdef'', i32_user = ['''']\<rparr>"
  by (simp add: i32_feed_def i32_dataReceived_def i32_fresh_def i32_loop.simps struct_unpack_i_def
      be_nat_def slice_def slice_from_def py_index_def record_frame_def Let_def)

end
